theory Spec2Isabelle
  imports Complex_Main
begin

section \<open>Keysight B1500 module driver: response parsing and relay control\<close>

text \<open>
  A shallow embedding of \<^verbatim>\<open>KeysightB1500_module.py\<close>: the two response parsers
  \<^verbatim>\<open>parse_module_query_response\<close> and \<^verbatim>\<open>parse_spot_measurement_response\<close>, and the
  methods \<^verbatim>\<open>enable_outputs\<close>, \<^verbatim>\<open>disable_outputs\<close> and \<^verbatim>\<open>is_enabled\<close> of
  \<^verbatim>\<open>B1500Module\<close>.

  The instrument speaks ASCII, and a Python string is modelled as a \<^typ>\<open>string\<close>
  of ASCII characters. Python's \<^verbatim>\<open>\w\<close> and \<^verbatim>\<open>\d\<close> also accept letters and
  digits beyond ASCII; those are outside this embedding, which classifies a character
  above 127 as neither.
\<close>

subsection \<open>Python values and exceptions\<close>

text \<open>
  \<open>ValueError x\<close> is a \<^verbatim>\<open>ValueError\<close> whose message quotes \<open>x\<close>: the response that
  did not match (\<^verbatim>\<open>f"{response!r} didn't match ..."\<close>), the literal that \<^verbatim>\<open>int\<close>
  or \<^verbatim>\<open>float\<close> refused, the name of the enumeration that has no such member, or
  \<open>unpack\<close> for a tuple of the wrong length. \<open>TypeError\<close> is what \<^verbatim>\<open>float(None)\<close>
  raises, and \<open>KeyError k\<close> the lookup of a key \<open>k\<close> that a dictionary does not have.
\<close>

datatype error = ValueError string | TypeError | KeyError string

text \<open>
  The values a result dictionary holds. \<open>PFloat q\<close> stands for the double nearest to the
  rational \<open>q\<close>: the embedding keeps the decimal value that \<^verbatim>\<open>float\<close> reads and does
  not model its rounding to 53 bits, nor the sign of a zero.
\<close>

datatype pyval = PNone | PStr string | PFloat rat

subsection \<open>Character classes\<close>

definition is_digit :: "char \<Rightarrow> bool" where
  "is_digit c \<longleftrightarrow> c \<in> set ''0123456789''"

definition is_word :: "char \<Rightarrow> bool" where
  "is_word c \<longleftrightarrow>
     c \<in> set ''abcdefghijklmnopqrstuvwxyz'' \<or> c \<in> set ''ABCDEFGHIJKLMNOPQRSTUVWXYZ''
     \<or> is_digit c \<or> c = CHR ''_''"

text \<open>
  The classes the module's patterns use: \<^verbatim>\<open>\w\<close>, \<^verbatim>\<open>\d\<close>, a literal character,
  a set \<^verbatim>\<open>[...]\<close> and a negated set \<^verbatim>\<open>[^...]\<close>.
\<close>

datatype cls = W | D | Chr char | AnyOf "cls list" | NoneOf "cls list"

fun in_cls :: "cls \<Rightarrow> char \<Rightarrow> bool" where
  "in_cls W c = is_word c"
| "in_cls D c = is_digit c"
| "in_cls (Chr x) c = (c = x)"
| "in_cls (AnyOf ks) c = list_ex (\<lambda>k. in_cls k c) ks"
| "in_cls (NoneOf ks) c = (\<not> list_ex (\<lambda>k. in_cls k c) ks)"

subsection \<open>The fragment of \<^verbatim>\<open>re\<close> the module uses\<close>

text \<open>
  A pattern is a sequence of items: one character of a class, a greedy repetition
  \<^verbatim>\<open>k{lo,hi}\<close> of a class (\<^verbatim>\<open>+\<close> is \<open>Rep k 1 None\<close>), a greedy optional item
  \<^verbatim>\<open>r?\<close>, a named group \<^verbatim>\<open>(?P<name>r)\<close> and a group without a name.
\<close>

datatype rx =
    One cls
  | Rep cls nat "nat option"
  | Seq rx rx
  | Opt rx
  | Grp string rx
  | Paren rx

type_synonym caps = "(string \<times> string) list"

text \<open>
  Backtracking as a list of successes: \<open>rx_match r s g\<close> lists, in the order in which
  the backtracking matcher tries them, every way \<open>r\<close> can match at the start of \<open>s\<close>,
  each as the input left over and the groups captured so far (the latest capture first).
  A greedy repetition tries its longest run first and gives characters back one by one;
  a greedy optional item tries its body before skipping it, and skipping it leaves the
  groups as they were.
\<close>

fun rx_match :: "rx \<Rightarrow> string \<Rightarrow> caps \<Rightarrow> (string \<times> caps) list" where
  "rx_match (One k) s g =
     (case s of [] \<Rightarrow> [] | c # r \<Rightarrow> if in_cls k c then [(r, g)] else [])"
| "rx_match (Rep k lo hi) s g =
     (let n = length (takeWhile (in_cls k) s);
          m = (case hi of None \<Rightarrow> n | Some h \<Rightarrow> min h n)
      in map (\<lambda>j. (drop j s, g)) (rev [lo ..< Suc m]))"
| "rx_match (Seq a b) s g = concat (map (\<lambda>(r, g'). rx_match b r g') (rx_match a s g))"
| "rx_match (Opt a) s g = rx_match a s g @ [(s, g)]"
| "rx_match (Grp name a) s g =
     map (\<lambda>(r, g'). (r, (name, take (length s - length r) s) # g')) (rx_match a s g)"
| "rx_match (Paren a) s g = rx_match a s g"

text \<open>The names of a pattern's named groups, in the order of their opening brackets.\<close>

fun group_names :: "rx \<Rightarrow> string list" where
  "group_names (One k) = []"
| "group_names (Rep k lo hi) = []"
| "group_names (Seq a b) = group_names a @ group_names b"
| "group_names (Opt a) = group_names a"
| "group_names (Grp name a) = name # group_names a"
| "group_names (Paren a) = group_names a"

text \<open>
  A match object: the length of the matched text and the captured groups.
  \<^verbatim>\<open>re.match(p, s)\<close> is the matcher's first success at the start of \<open>s\<close>, or
  \<^verbatim>\<open>None\<close>; it need not reach the end of \<open>s\<close>.
\<close>

record match_obj =
  m_end :: nat
  m_caps :: caps

definition re_match :: "rx \<Rightarrow> string \<Rightarrow> match_obj option" where
  "re_match p s =
     (case rx_match p s [] of
        [] \<Rightarrow> None
      | (r, g) # _ \<Rightarrow> Some \<lparr>m_end = length s - length r, m_caps = g\<rparr>)"

text \<open>
  \<^verbatim>\<open>match.groupdict()\<close>: every named group of the pattern, mapped to the text it
  captured, or to \<^verbatim>\<open>None\<close> when it took no part in the match.
\<close>

definition groupdict :: "rx \<Rightarrow> match_obj \<Rightarrow> (string \<rightharpoonup> pyval)" where
  "groupdict p m =
     map_of (map (\<lambda>name. (name, case map_of (m_caps m) name of
                                    None \<Rightarrow> PNone | Some t \<Rightarrow> PStr t))
                 (group_names p))"

text \<open>
  \<^verbatim>\<open>re.findall(p, s)\<close> for a pattern with two or more groups, all of them named: the
  tuples of the groups' texts (the empty string for a group that took no part), for the
  non-overlapping matches from left to right. The search resumes where a match ended,
  and one character further where none was found. The patterns of this module match no
  empty text, so what \<^verbatim>\<open>re\<close> does after an empty match is never exercised; the
  embedding then moves one character on.
\<close>

definition groups_tuple :: "rx \<Rightarrow> match_obj \<Rightarrow> string list" where
  "groups_tuple p m =
     map (\<lambda>name. case map_of (m_caps m) name of None \<Rightarrow> [] | Some t \<Rightarrow> t) (group_names p)"

lemma re_match_end_le: "re_match p s = Some m \<Longrightarrow> m_end m \<le> length s"
  by (auto simp: re_match_def split: list.splits)

function re_findall :: "rx \<Rightarrow> string \<Rightarrow> string list list" where
  "re_findall p s =
     (case re_match p s of
        None \<Rightarrow> (case s of [] \<Rightarrow> [] | _ # s' \<Rightarrow> re_findall p s')
      | Some m \<Rightarrow>
          groups_tuple p m #
          (if m_end m = 0 then (case s of [] \<Rightarrow> [] | _ # s' \<Rightarrow> re_findall p s')
           else re_findall p (drop (m_end m) s)))"
  by pat_completeness auto
termination
proof (relation "measure (\<lambda>(p, s). length s)")
  show "wf (measure (\<lambda>(p :: rx, s :: string). length s))" by simp
next
  fix p :: rx and s :: string and x21 :: char and x22 :: string
  assume "re_match p s = None" "s = x21 # x22"
  then show "((p, x22), (p, s)) \<in> measure (\<lambda>(p, s). length s)" by simp
next
  fix p :: rx and s :: string and m :: match_obj and x21 :: char and x22 :: string
  assume "re_match p s = Some m" "m_end m = 0" "s = x21 # x22"
  then show "((p, x22), (p, s)) \<in> measure (\<lambda>(p, s). length s)" by simp
next
  fix p :: rx and s :: string and m :: match_obj
  assume m: "re_match p s = Some m" and pos: "m_end m \<noteq> 0"
  from re_match_end_le [OF m] pos have "s \<noteq> []" by auto
  with pos show "((p, drop (m_end m) s), (p, s)) \<in> measure (\<lambda>(p, s). length s)" by simp
qed

subsection \<open>Built-in conversions and string methods\<close>

definition digit_val :: "char \<Rightarrow> nat" where
  "digit_val c = of_char c - 48"

definition dec :: "string \<Rightarrow> nat" where
  "dec ds = foldl (\<lambda>a c. 10 * a + digit_val c) 0 ds"

text \<open>
  \<^verbatim>\<open>int(x)\<close> on a string of ASCII digits: its decimal value (leading zeros allowed,
  any size), and a \<^verbatim>\<open>ValueError\<close> on the empty string. \<^verbatim>\<open>int\<close> also accepts a
  sign, surrounding blanks and underscores between digits; the only caller hands it
  what \<^verbatim>\<open>[^,\d]\<close> and the commas leave, which has none of them, and the embedding
  refuses them. The limit on the number of digits that later interpreters impose is not
  modelled.
\<close>

definition py_int :: "string \<Rightarrow> error + int" where
  "py_int x = (if x \<noteq> [] \<and> list_all is_digit x then Inr (int (dec x)) else Inl (ValueError x))"

text \<open>
  \<^verbatim>\<open>float(x)\<close> on a decimal literal: an optional sign, digits, an optional point
  with digits (at least one digit on one side of it), and an optional exponent
  \<^verbatim>\<open>e\<close> or \<^verbatim>\<open>E\<close> with an optional sign and at least one digit. Blanks, underscores,
  \<^verbatim>\<open>inf\<close> and \<^verbatim>\<open>nan\<close>, which \<^verbatim>\<open>float\<close> also reads, are refused here: the value
  group of the spot pattern yields none of them.
\<close>

definition py_exponent :: "string \<Rightarrow> int option" where
  "py_exponent w =
     (case w of
        [] \<Rightarrow> Some 0
      | c # r \<Rightarrow>
          if c = CHR ''e'' \<or> c = CHR ''E'' then
            (let (neg, ds) = (case r of
                                [] \<Rightarrow> (False, r)
                              | sg # r' \<Rightarrow> if sg = CHR ''-'' then (True, r')
                                          else if sg = CHR ''+'' then (False, r')
                                          else (False, r))
             in if ds \<noteq> [] \<and> list_all is_digit ds
                then Some (if neg then - int (dec ds) else int (dec ds)) else None)
          else None)"

definition scale10 :: "rat \<Rightarrow> int \<Rightarrow> rat" where
  "scale10 q e = (if 0 \<le> e then q * 10 ^ nat e else q / 10 ^ nat (- e))"

definition py_float_str :: "string \<Rightarrow> error + rat" where
  "py_float_str x =
     (let (neg, u) = (case x of
                        [] \<Rightarrow> (False, x)
                      | sg # r \<Rightarrow> if sg = CHR ''-'' then (True, r)
                                 else if sg = CHR ''+'' then (False, r)
                                 else (False, x));
          i = takeWhile is_digit u;
          v = dropWhile is_digit u;
          (f, w) = (case v of
                      [] \<Rightarrow> ([], v)
                    | c # r \<Rightarrow> if c = CHR ''.''
                               then (takeWhile is_digit r, dropWhile is_digit r)
                               else ([], v))
      in if i = [] \<and> f = [] then Inl (ValueError x)
         else (case py_exponent w of
                 None \<Rightarrow> Inl (ValueError x)
               | Some e \<Rightarrow>
                   Inr (scale10 ((if neg then - 1 else 1) * of_nat (dec (i @ f)) / 10 ^ length f) e)))"

fun py_float :: "pyval \<Rightarrow> error + pyval" where
  "py_float PNone = Inl TypeError"
| "py_float (PStr x) = (case py_float_str x of Inl e \<Rightarrow> Inl e | Inr q \<Rightarrow> Inr (PFloat q))"
| "py_float (PFloat q) = Inr (PFloat q)"

text \<open>
  \<^verbatim>\<open>re.sub(k, repl, s)\<close> for a pattern that is one character class: every character
  of the class is replaced by \<open>repl\<close>.
\<close>

definition re_sub :: "cls \<Rightarrow> string \<Rightarrow> string \<Rightarrow> string" where
  "re_sub k repl s = concat (map (\<lambda>c. if in_cls k c then repl else [c]) s)"

text \<open>
  \<^verbatim>\<open>s.split(sep)\<close> for a separator of one character: the empty string splits into
  one empty piece, and two separators in a row enclose an empty piece.
\<close>

fun py_split :: "char \<Rightarrow> string \<Rightarrow> string list" where
  "py_split sep [] = [[]]"
| "py_split sep (c # cs) =
     (if c = sep then [] # py_split sep cs
      else (case py_split sep cs of
              [] \<Rightarrow> [[c]]
            | w # ws \<Rightarrow> (c # w) # ws))"

fun enumerate_from :: "int \<Rightarrow> 'a list \<Rightarrow> (int \<times> 'a) list" where
  "enumerate_from n [] = []"
| "enumerate_from n (x # xs) = (n, x) # enumerate_from (n + 1) xs"

subsection \<open>\<^verbatim>\<open>parse_module_query_response\<close>\<close>

text \<open>
  \<^verbatim>\<open>constants.SlotNr\<close> is not among the sources: which integers it accepts is the
  parameter \<open>valid\<close>. \<open>SlotNr valid n\<close> is the slot number \<open>n\<close> when \<open>valid n\<close>, and
  otherwise the \<^verbatim>\<open>ValueError\<close> of an enumeration that has no such member. The
  specification's data model has every positive integer as a slot number.
\<close>

definition SlotNr :: "(int \<Rightarrow> bool) \<Rightarrow> int \<Rightarrow> error + int" where
  "SlotNr valid n = (if valid n then Inr n else Inl (ValueError ''SlotNr''))"

text \<open>The pattern \<^verbatim>\<open>;?(?P<model>\w+),(?P<revision>\d+)\<close>.\<close>

definition module_pattern :: rx where
  "module_pattern =
     Seq (Opt (One (Chr CHR '';'')))
    (Seq (Grp ''model'' (Rep W 1 None))
    (Seq (One (Chr CHR '',''))
         (Grp ''revision'' (Rep D 1 None))))"

text \<open>
  The dictionary comprehension, one item of \<^verbatim>\<open>enumerate(moduleinfo, start=1)\<close> at a
  time: the tuple is unpacked into \<^verbatim>\<open>(model, rev)\<close> (a tuple of another length would
  raise), the condition is tested, and the key \<^verbatim>\<open>SlotNr(slot_nr)\<close> is built and
  stored.
\<close>

fun module_dict ::
  "(int \<Rightarrow> bool) \<Rightarrow> (int \<times> string list) list \<Rightarrow> (int \<rightharpoonup> string)
     \<Rightarrow> error + (int \<rightharpoonup> string)" where
  "module_dict valid [] d = Inr d"
| "module_dict valid ((slot_nr, t) # rest) d =
     (case t of
        [model, rev'] \<Rightarrow>
          if model \<noteq> ''0'' then
            (case SlotNr valid slot_nr of
               Inl e \<Rightarrow> Inl e
             | Inr k \<Rightarrow> module_dict valid rest (d(k \<mapsto> model)))
          else module_dict valid rest d
      | _ \<Rightarrow> Inl (ValueError ''unpack''))"

definition parse_module_query_response ::
  "(int \<Rightarrow> bool) \<Rightarrow> string \<Rightarrow> error + (int \<rightharpoonup> string)" where
  "parse_module_query_response valid response =
     (let moduleinfo = re_findall module_pattern response
      in module_dict valid (enumerate_from 1 moduleinfo) Map.empty)"

subsection \<open>\<^verbatim>\<open>parse_spot_measurement_response\<close>\<close>

text \<open>
  The module's \<^verbatim>\<open>_pattern\<close>:
  \<^verbatim>\<open>((?P<status>\w)(?P<chnr>\w)(?P<dtype>\w))?(?P<value>[+-]\d{1,3}\.\d{3,6}E[+-]\d{2})\<close>.
\<close>

definition sign_cls :: cls where
  "sign_cls = AnyOf [Chr CHR ''+'', Chr CHR ''-'']"

definition value_rx :: rx where
  "value_rx =
     Seq (One sign_cls)
    (Seq (Rep D 1 (Some 3))
    (Seq (One (Chr CHR ''.''))
    (Seq (Rep D 3 (Some 6))
    (Seq (One (Chr CHR ''E''))
    (Seq (One sign_cls)
         (Rep D 2 (Some 2)))))))"

definition spot_pattern :: rx where
  "spot_pattern =
     Seq (Opt (Paren (Seq (Grp ''status'' (One W))
                     (Seq (Grp ''chnr'' (One W))
                          (Grp ''dtype'' (One W))))))
         (Grp ''value'' value_rx)"

text \<open>
  \<^verbatim>\<open>dd = match.groupdict()\<close>, then \<^verbatim>\<open>d["value"] = float(d["value"])\<close>: the lookup
  of the key, the conversion and the update of the dictionary.
\<close>

definition parse_spot_measurement_response :: "string \<Rightarrow> error + (string \<rightharpoonup> pyval)" where
  "parse_spot_measurement_response response =
     (case re_match spot_pattern response of
        None \<Rightarrow> Inl (ValueError response)
      | Some m \<Rightarrow>
          (let d = groupdict spot_pattern m
           in case d ''value'' of
                None \<Rightarrow> Inl (KeyError ''value'')
              | Some v \<Rightarrow>
                  (case py_float v of
                     Inl e \<Rightarrow> Inl e
                   | Inr x \<Rightarrow> Inr (d(''value'' \<mapsto> x)))))"

subsection \<open>\<^verbatim>\<open>B1500Module\<close>\<close>

text \<open>
  A module has its tuple of channel numbers and its slot number. The instrument behind
  \<^verbatim>\<open>self.write\<close> and \<^verbatim>\<open>self.ask\<close> is a record of what was sent to it, in order,
  with the reply it gives to a query.
\<close>

record B1500Module =
  channels :: "int list"
  slot_nr :: int

datatype io = Written string | Asked string

record instrument =
  sent :: "io list"
  reply :: "string \<Rightarrow> string"

definition write' :: "string \<Rightarrow> instrument \<Rightarrow> instrument" where
  "write' msg ins = ins\<lparr>sent := sent ins @ [Written msg]\<rparr>"

definition ask :: "string \<Rightarrow> instrument \<Rightarrow> string \<times> instrument" where
  "ask msg ins = (reply ins msg, ins\<lparr>sent := sent ins @ [Asked msg]\<rparr>)"

text \<open>
  \<^verbatim>\<open>MessageBuilder\<close> and \<^verbatim>\<open>constants.LRN\<close> are not among the sources: the texts of
  the commands are parameters. \<open>cn chs\<close> is \<^verbatim>\<open>MessageBuilder().cn(chs).message\<close>, the
  command that closes the output relays of \<open>chs\<close>; \<open>cl chs\<close> is the one that opens
  them; \<open>lrn_query t\<close> asks for the settings of kind \<open>t\<close>.
\<close>

datatype lrn_type = OUTPUT_SWITCH

record MessageBuilder =
  cn :: "int list \<Rightarrow> string"
  cl :: "int list \<Rightarrow> string"
  lrn_query :: "lrn_type \<Rightarrow> string"

text \<open>
  A method takes the module and the instrument and returns its value with both as it
  leaves them.
\<close>

definition enable_outputs ::
  "MessageBuilder \<Rightarrow> B1500Module \<Rightarrow> instrument \<Rightarrow> unit \<times> B1500Module \<times> instrument" where
  "enable_outputs mb self ins =
     (let msg = cn mb (channels self) in ((), self, write' msg ins))"

definition disable_outputs ::
  "MessageBuilder \<Rightarrow> B1500Module \<Rightarrow> instrument \<Rightarrow> unit \<times> B1500Module \<times> instrument" where
  "disable_outputs mb self ins =
     (let msg = cl mb (channels self) in ((), self, write' msg ins))"

text \<open>
  The generator \<^verbatim>\<open>int(x) for x in activated_channels\<close> is consumed to its end by
  \<^verbatim>\<open>issubset\<close>, which builds a set from it before comparing: the first piece that
  \<^verbatim>\<open>int\<close> refuses raises, whatever the other pieces are.
\<close>

fun int_all :: "string list \<Rightarrow> error + int list" where
  "int_all [] = Inr []"
| "int_all (x # xs) =
     (case py_int x of
        Inl e \<Rightarrow> Inl e
      | Inr n \<Rightarrow> (case int_all xs of Inl e \<Rightarrow> Inl e | Inr ns \<Rightarrow> Inr (n # ns)))"

definition activated_channels :: "string \<Rightarrow> string list" where
  "activated_channels response =
     py_split CHR '','' (re_sub (NoneOf [Chr CHR '','', D]) [] response)"

definition is_enabled ::
  "MessageBuilder \<Rightarrow> B1500Module \<Rightarrow> instrument \<Rightarrow> (error + bool) \<times> B1500Module \<times> instrument" where
  "is_enabled mb self ins =
     (let msg = lrn_query mb OUTPUT_SWITCH;
          (response, ins') = ask msg ins
      in (case int_all (activated_channels response) of
            Inl e \<Rightarrow> Inl e
          | Inr ns \<Rightarrow> Inr (set (channels self) \<subseteq> set ns),
          self, ins'))"

text \<open>
  A message builder for the examples, with fixed command texts.
\<close>

definition example_builder :: MessageBuilder where
  "example_builder =
     \<lparr>cn = (\<lambda>chs. ''CN''), cl = (\<lambda>chs. ''CL''), lrn_query = (\<lambda>t. ''*LRN? 0'')\<rparr>"

section \<open>The response grammars, read directly\<close>

text \<open>
  The definitions of this section are not taken from the code. They read the two
  grammars as the specification words them, without a pattern matcher, so that the
  parsers can be compared with them.
\<close>

subsection \<open>The spot-measurement record\<close>

definition is_sign :: "char \<Rightarrow> bool" where
  "is_sign c \<longleftrightarrow> c = CHR ''+'' \<or> c = CHR ''-''"

text \<open>
  \<open>exponent_at x\<close>: \<open>x\<close> starts with \<^verbatim>\<open>E\<close>, a sign and two digits.
  \<open>numeric_prefix s\<close> is the length of the numeric token at the start of \<open>s\<close>, if there
  is one: a sign, the run of digits up to the point (one to three of them), the point,
  the run of digits up to \<^verbatim>\<open>E\<close> (three to six of them), and the exponent.
\<close>

definition exponent_at :: "string \<Rightarrow> bool" where
  "exponent_at x =
     (case x of
        e # es # e1 # e2 # _ \<Rightarrow> e = CHR ''E'' \<and> is_sign es \<and> is_digit e1 \<and> is_digit e2
      | _ \<Rightarrow> False)"

definition numeric_prefix :: "string \<Rightarrow> nat option" where
  "numeric_prefix s =
     (case s of
        [] \<Rightarrow> None
      | sg # u \<Rightarrow>
          (let ni = length (takeWhile is_digit u) in
           case drop ni u of
             [] \<Rightarrow> None
           | dot # w \<Rightarrow>
               (let nf = length (takeWhile is_digit w) in
                if is_sign sg \<and> 1 \<le> ni \<and> ni \<le> 3 \<and> dot = CHR ''.'' \<and> 3 \<le> nf \<and> nf \<le> 6
                   \<and> exponent_at (drop nf w)
                then Some (ni + nf + 6) else None)))"

text \<open>
  A numeric token is a string that is such a token from its first to its last character.
  Lemma \<open>numeric_token_iff\<close> below shows that these are exactly the strings
  \<^verbatim>\<open>[+-]\<close>, one to three digits, \<^verbatim>\<open>.\<close>, three to six digits, \<^verbatim>\<open>E\<close>, \<^verbatim>\<open>[+-]\<close>,
  two digits.
\<close>

definition numeric_token :: "string \<Rightarrow> bool" where
  "numeric_token t \<longleftrightarrow> numeric_prefix t = Some (length t)"

text \<open>
  A record is a numeric token, alone or after three word characters.
\<close>

definition spot_record :: "string \<Rightarrow> bool" where
  "spot_record t \<longleftrightarrow>
     numeric_token t
     \<or> (case t of
          c1 # c2 # c3 # n \<Rightarrow> is_word c1 \<and> is_word c2 \<and> is_word c3 \<and> numeric_token n
        | _ \<Rightarrow> False)"

text \<open>
  \<open>spot_split s\<close> cuts the record at the start of \<open>s\<close> into its three-character prefix
  (empty when there is none) and its numeric token.
\<close>

definition spot_split :: "string \<Rightarrow> (string \<times> string) option" where
  "spot_split s =
     (case (case s of
              c1 # c2 # c3 # t \<Rightarrow>
                if is_word c1 \<and> is_word c2 \<and> is_word c3
                then map_option (\<lambda>n. ([c1, c2, c3], take n t)) (numeric_prefix t) else None
            | _ \<Rightarrow> None) of
        Some x \<Rightarrow> Some x
      | None \<Rightarrow> map_option (\<lambda>n. ([], take n s)) (numeric_prefix s))"

text \<open>
  The number a token denotes: its sign, times its integer digits plus its fraction
  digits over the matching power of ten, times ten to its signed exponent.
\<close>

definition token_value :: "char \<Rightarrow> string \<Rightarrow> string \<Rightarrow> char \<Rightarrow> string \<Rightarrow> rat" where
  "token_value sg i f es e =
     (if sg = CHR ''-'' then - 1 else 1) * (of_nat (dec i) + of_nat (dec f) / 10 ^ length f)
     * (if es = CHR ''-'' then 1 / 10 ^ dec e else 10 ^ dec e)"

text \<open>
  The groups and the fields that a prefix gives: the three characters one by one, or
  nothing.
\<close>

definition prefix_caps :: "string \<Rightarrow> caps" where
  "prefix_caps p =
     (case p of
        [c1, c2, c3] \<Rightarrow> [(''dtype'', [c3]), (''chnr'', [c2]), (''status'', [c1])]
      | _ \<Rightarrow> [])"

definition prefix_field :: "string \<Rightarrow> nat \<Rightarrow> pyval" where
  "prefix_field p k = (if k < length p then PStr [p ! k] else PNone)"

text \<open>Whether a repetition \<^verbatim>\<open>{lo,hi}\<close> accepts a run of \<open>n\<close> characters.\<close>

definition rep_ok :: "nat \<Rightarrow> nat option \<Rightarrow> nat \<Rightarrow> bool" where
  "rep_ok lo hi n \<longleftrightarrow> lo \<le> n \<and> (case hi of None \<Rightarrow> True | Some h \<Rightarrow> n \<le> h)"

subsection \<open>The module inventory\<close>

text \<open>
  An entry is a word token, a comma and a run of digits, each as long as it can be;
  \<open>entry_body t\<close> reads one at the start of \<open>t\<close> and gives the model, the revision
  and the text after the entry. \<open>entry_at s\<close> allows one \<^verbatim>\<open>;\<close> before the entry.
\<close>

definition entry_body :: "string \<Rightarrow> (string \<times> string \<times> string) option" where
  "entry_body t =
     (let w = takeWhile is_word t in
      case dropWhile is_word t of
        [] \<Rightarrow> None
      | c # v \<Rightarrow>
          if w \<noteq> [] \<and> c = CHR '','' \<and> takeWhile is_digit v \<noteq> []
          then Some (w, takeWhile is_digit v, dropWhile is_digit v) else None)"

definition entry_at :: "string \<Rightarrow> (string \<times> string \<times> string) option" where
  "entry_at s =
     (case s of
        [] \<Rightarrow> None
      | c # r \<Rightarrow> if c = CHR '';'' then entry_body r else entry_body s)"

lemma entry_body_shorter: "entry_body t = Some (w, d, rest) \<Longrightarrow> length rest < length t"
proof -
  assume e: "entry_body t = Some (w, d, rest)"
  then obtain c v where tv: "dropWhile is_word t = c # v" and rest: "rest = dropWhile is_digit v"
    by (auto simp: entry_body_def Let_def split: list.splits if_splits)
  have "length rest \<le> length v" unfolding rest by (rule length_dropWhile_le)
  also have "length v < length (dropWhile is_word t)" by (simp add: tv)
  also have "\<dots> \<le> length t" by (rule length_dropWhile_le)
  finally show ?thesis .
qed

lemma entry_at_shorter: "entry_at s = Some (w, d, rest) \<Longrightarrow> length rest < length s"
  by (auto simp: entry_at_def split: list.splits if_splits dest: entry_body_shorter)

text \<open>
  The entries of a response, from left to right: where an entry stands it is taken and
  the scan goes on behind it; elsewhere the scan moves one character on.
\<close>

function inventory_entries :: "string \<Rightarrow> (string \<times> string) list" where
  "inventory_entries s =
     (case entry_at s of
        None \<Rightarrow> (case s of [] \<Rightarrow> [] | _ # s' \<Rightarrow> inventory_entries s')
      | Some (w, d, rest) \<Rightarrow> (w, d) # inventory_entries rest)"
  by pat_completeness auto
termination
  by (relation "measure length") (auto dest: entry_at_shorter)

text \<open>The first of a list of successes, if there is one.\<close>

definition first_success :: "'a list \<Rightarrow> 'a option" where
  "first_success xs = (case xs of [] \<Rightarrow> None | x # _ \<Rightarrow> Some x)"

section \<open>Relay control and the output state\<close>

subsection \<open>What \<^verbatim>\<open>is_enabled\<close> computes\<close>

lemma re_sub_filter:
  "re_sub (NoneOf [Chr CHR '','', D]) [] s = filter (\<lambda>c. c = CHR '','' \<or> is_digit c) s"
  by (induction s) (auto simp: re_sub_def)

lemma py_split_not_Nil: "py_split sep s \<noteq> []"
  by (induction s) (auto split: list.splits)

lemma py_split_chars: "w \<in> set (py_split sep s) \<Longrightarrow> set w \<subseteq> set s - {sep}"
proof (induction s arbitrary: w)
  case Nil
  then show ?case by simp
next
  case (Cons c cs)
  show ?case
  proof (cases "c = sep")
    case True
    with Cons show ?thesis by auto
  next
    case False
    obtain v vs where vs: "py_split sep cs = v # vs"
      using py_split_not_Nil [of sep cs] by (cases "py_split sep cs") auto
    with Cons.prems False have "w = c # v \<or> w \<in> set vs" by simp
    then show ?thesis
    proof
      assume "w = c # v"
      moreover have "set v \<subseteq> set cs - {sep}" using Cons.IH [of v] vs by simp
      ultimately show ?thesis using False by auto
    next
      assume "w \<in> set vs"
      then have "set w \<subseteq> set cs - {sep}" using Cons.IH [of w] vs by simp
      then show ?thesis by auto
    qed
  qed
qed

lemma activated_channels_digits:
  "w \<in> set (activated_channels response) \<Longrightarrow> list_all is_digit w"
proof -
  assume "w \<in> set (activated_channels response)"
  then have "set w \<subseteq> set (filter (\<lambda>c. c = CHR '','' \<or> is_digit c) response) - {CHR '',''}"
    unfolding activated_channels_def re_sub_filter by (rule py_split_chars)
  then show ?thesis by (auto simp: list_all_iff)
qed

lemma int_all_digits:
  "\<forall>w \<in> set xs. list_all is_digit w \<Longrightarrow>
   int_all xs = (if [] \<in> set xs then Inl (ValueError []) else Inr (map (\<lambda>x. int (dec x)) xs))"
  by (induction xs) (auto simp: py_int_def)

lemma py_split_empty_piece:
  "[] \<in> set (tl (py_split sep (a @ [sep, sep] @ b)))"
proof (induction a)
  case Nil
  then show ?case by simp
next
  case (Cons c a)
  show ?case
  proof (cases "c = sep")
    case True
    have "[] \<in> set (py_split sep (a @ [sep, sep] @ b))"
      using Cons.IH by (meson list.set_sel(2) py_split_not_Nil)
    with True show ?thesis by simp
  next
    case False
    with Cons.IH show ?thesis
      by (cases "py_split sep (a @ [sep, sep] @ b)") auto
  qed
qed

lemma is_enabled_value:
  "is_enabled mb self ins =
     (let pieces = activated_channels (reply ins (lrn_query mb OUTPUT_SWITCH))
      in if [] \<in> set pieces then Inl (ValueError [])
         else Inr (set (channels self) \<subseteq> (\<lambda>x. int (dec x)) ` set pieces),
      self, ins\<lparr>sent := sent ins @ [Asked (lrn_query mb OUTPUT_SWITCH)]\<rparr>)"
  using int_all_digits [of "activated_channels (reply ins (lrn_query mb OUTPUT_SWITCH))"]
    activated_channels_digits [of _ "reply ins (lrn_query mb OUTPUT_SWITCH)"]
  by (simp add: is_enabled_def ask_def Let_def)


text \<open>
  C7. \<^verbatim>\<open>enable_outputs\<close> builds the command \<open>cn\<close> (close the relays) for the whole
  channel tuple of the module and sends exactly that one command; \<^verbatim>\<open>disable_outputs\<close>
  does the same with \<open>cl\<close> (open the relays). Both return no value and leave the
  module, its channels and its slot number as they were.
\<close>

theorem enable_disable_outputs:
  "enable_outputs mb self ins =
     ((), self, ins\<lparr>sent := sent ins @ [Written (cn mb (channels self))]\<rparr>)
   \<and> disable_outputs mb self ins =
     ((), self, ins\<lparr>sent := sent ins @ [Written (cl mb (channels self))]\<rparr>)"
  by (simp add: enable_outputs_def disable_outputs_def write'_def)


text \<open>
  C8. When the response, stripped of everything but digits and commas, is empty or has
  two commas in a row, \<^verbatim>\<open>is_enabled\<close> raises the \<^verbatim>\<open>ValueError\<close> of \<^verbatim>\<open>int('')\<close>
  and returns no boolean.
\<close>

theorem is_enabled_raises_on_empty_piece:
  assumes "filtered = re_sub (NoneOf [Chr CHR '','', D]) [] (reply ins (lrn_query mb OUTPUT_SWITCH))"
    and "filtered = [] \<or> (\<exists>a b. filtered = a @ '',,'' @ b)"
  shows "fst (is_enabled mb self ins) = Inl (ValueError [])"
proof -
  have "[] \<in> set (py_split CHR '','' filtered)"
    using assms(2)
  proof
    assume "filtered = []"
    then show ?thesis by simp
  next
    assume "\<exists>a b. filtered = a @ '',,'' @ b"
    then obtain a b where "filtered = a @ [CHR '','', CHR '',''] @ b" by auto
    then show ?thesis
      using py_split_empty_piece [of "CHR '',''" a b]
      by (metis list.set_sel(2) py_split_not_Nil)
  qed
  then show ?thesis
    by (simp add: is_enabled_value activated_channels_def assms(1) Let_def)
qed

theorem is_enabled_raises_witness:
  "fst (is_enabled example_builder \<lparr>channels = [1, 2], slot_nr = 1\<rparr> \<lparr>sent = [], reply = (\<lambda>q. ''CL'')\<rparr>)
     = Inl (ValueError [])
   \<and> fst (is_enabled example_builder \<lparr>channels = [1, 2], slot_nr = 1\<rparr>
             \<lparr>sent = [], reply = (\<lambda>q. ''CN1,,2'')\<rparr>)
     = Inl (ValueError [])"
proof -
  have f1: "[] = re_sub (NoneOf [Chr CHR '','', D]) []
                   (reply \<lparr>sent = [], reply = (\<lambda>q. ''CL'')\<rparr> (lrn_query example_builder OUTPUT_SWITCH))"
    by (simp add: re_sub_def is_digit_def)
  have f2: "''1'' @ '',,'' @ ''2'' = re_sub (NoneOf [Chr CHR '','', D]) []
                   (reply \<lparr>sent = [], reply = (\<lambda>q. ''CN1,,2'')\<rparr> (lrn_query example_builder OUTPUT_SWITCH))"
    by (simp add: re_sub_def is_digit_def)
  have e1: "([]::string) = [] \<or> (\<exists>a b. ([]::string) = a @ '',,'' @ b)"
    by simp
  have e2: "''1'' @ '',,'' @ ''2'' = [] \<or> (\<exists>a b. ''1'' @ '',,'' @ ''2'' = a @ '',,'' @ b)"
    by blast
  show ?thesis
    using is_enabled_raises_on_empty_piece [OF f1 e1] is_enabled_raises_on_empty_piece [OF f2 e2]
    by simp
qed

text \<open>
  C1. The instrument answers \<^verbatim>\<open>CL\<close> when no output switch is closed. For a module
  with channels 1 and 2 that answer has no digit: \<^verbatim>\<open>is_enabled\<close> raises instead of
  returning \<^verbatim>\<open>False\<close>. On the answer \<^verbatim>\<open>CN1\<close>, where channel 1 alone is closed, it
  returns \<^verbatim>\<open>False\<close>.
\<close>

theorem is_enabled_all_relays_open:
  "fst (is_enabled mb \<lparr>channels = [1, 2], slot_nr = 1\<rparr> \<lparr>sent = [], reply = (\<lambda>q. ''CL'')\<rparr>)
     = Inl (ValueError [])
   \<and> fst (is_enabled mb \<lparr>channels = [1, 2], slot_nr = 1\<rparr> \<lparr>sent = [], reply = (\<lambda>q. ''CN1'')\<rparr>)
     = Inr False"
  by (simp add: is_enabled_def ask_def activated_channels_def re_sub_def is_digit_def py_int_def
      dec_def digit_val_def)

text \<open>
  X1. When the stripped response has no empty piece between its commas, \<^verbatim>\<open>is_enabled\<close>
  returns whether every channel of the module is among the numbers that the pieces
  denote.
\<close>

theorem is_enabled_subset_test:
  assumes "[] \<notin> set (activated_channels (reply ins (lrn_query mb OUTPUT_SWITCH)))"
  shows "fst (is_enabled mb self ins) =
           Inr (set (channels self)
                  \<subseteq> (\<lambda>x. int (dec x)) ` set (activated_channels (reply ins (lrn_query mb OUTPUT_SWITCH))))"
  using assms by (simp add: is_enabled_value Let_def)

theorem is_enabled_subset_test_witness:
  "fst (is_enabled example_builder \<lparr>channels = [1, 2], slot_nr = 1\<rparr>
          \<lparr>sent = [], reply = (\<lambda>q. ''CN1,2,3'')\<rparr>) = Inr True
   \<and> fst (is_enabled example_builder \<lparr>channels = [1, 2], slot_nr = 1\<rparr>
          \<lparr>sent = [], reply = (\<lambda>q. ''CN2,3'')\<rparr>) = Inr False"
proof -
  have a: "activated_channels ''CN1,2,3'' = [''1'', ''2'', ''3'']"
    and b: "activated_channels ''CN2,3'' = [''2'', ''3'']"
    by (simp_all add: activated_channels_def re_sub_def is_digit_def)
  have "[] \<notin> set (activated_channels
      (reply \<lparr>sent = [], reply = (\<lambda>q. ''CN1,2,3'')\<rparr> (lrn_query example_builder OUTPUT_SWITCH)))"
    by (simp add: a)
  from is_enabled_subset_test [OF this, of "\<lparr>channels = [1, 2], slot_nr = 1\<rparr>"]
  have 1: "fst (is_enabled example_builder \<lparr>channels = [1, 2], slot_nr = 1\<rparr>
          \<lparr>sent = [], reply = (\<lambda>q. ''CN1,2,3'')\<rparr>) = Inr True"
    by (simp add: a dec_def digit_val_def)
  have "[] \<notin> set (activated_channels
      (reply \<lparr>sent = [], reply = (\<lambda>q. ''CN2,3'')\<rparr> (lrn_query example_builder OUTPUT_SWITCH)))"
    by (simp add: b)
  from is_enabled_subset_test [OF this, of "\<lparr>channels = [1, 2], slot_nr = 1\<rparr>"]
  have 2: "fst (is_enabled example_builder \<lparr>channels = [1, 2], slot_nr = 1\<rparr>
          \<lparr>sent = [], reply = (\<lambda>q. ''CN2,3'')\<rparr>) = Inr False"
    by (simp add: b dec_def digit_val_def)
  from 1 2 show ?thesis by (rule conjI)
qed

section \<open>The matcher on the patterns of the module\<close>

subsection \<open>Greedy repetitions that a literal character ends\<close>

lemma in_sign_cls [simp]: "in_cls sign_cls c = is_sign c"
  by (auto simp: sign_cls_def is_sign_def)

lemma concat_map_Nil: "(\<And>x. x \<in> set xs \<Longrightarrow> f x = []) \<Longrightarrow> concat (map f xs) = []"
  by (induction xs) auto

lemma concat_rev_upt_last:
  assumes "\<And>j. j < n \<Longrightarrow> f j = []" and "m \<le> n"
  shows "concat (map f (rev [lo ..< Suc m])) = (if m = n \<and> lo \<le> n then f n else [])"
proof (cases "m = n \<and> lo \<le> n")
  case True
  then have "[lo ..< Suc m] = [lo ..< n] @ [n]" by simp
  moreover have "concat (map f (rev [lo ..< n])) = []"
    using assms(1) by (intro concat_map_Nil) auto
  ultimately show ?thesis using True by simp
next
  case False
  have "concat (map f (rev [lo ..< Suc m])) = []"
  proof (rule concat_map_Nil)
    fix x assume "x \<in> set (rev [lo ..< Suc m])"
    then have "lo \<le> x" "x \<le> m" by auto
    with False assms(2) have "x < n" by linarith
    then show "f x = []" by (rule assms(1))
  qed
  with False show ?thesis by simp
qed

lemma takeWhile_nth_holds: "j < length (takeWhile P s) \<Longrightarrow> \<exists>r. drop j s = (s ! j) # r \<and> P (s ! j)"
proof -
  assume j: "j < length (takeWhile P s)"
  have "length (takeWhile P s) \<le> length s" by (rule length_takeWhile_le)
  with j have "j < length s" by simp
  then have "drop j s = (s ! j) # drop (Suc j) s" by (simp add: Cons_nth_drop_Suc)
  moreover have "P (s ! j)"
    using j by (metis nth_mem set_takeWhileD takeWhile_nth)
  ultimately show ?thesis by blast
qed

lemma rx_One_Seq:
  "rx_match (Seq (One k) b) s g =
     (case s of [] \<Rightarrow> [] | c # r \<Rightarrow> if in_cls k c then rx_match b r g else [])"
  by (cases s) auto

lemma rx_Rep_Seq_stop:
  assumes "\<not> in_cls k x"
  shows "rx_match (Seq (Rep k lo hi) (Seq (One (Chr x)) b)) s g =
     (let n = length (takeWhile (in_cls k) s) in
      if rep_ok lo hi n then rx_match (Seq (One (Chr x)) b) (drop n s) g else [])"
proof -
  define n where "n = length (takeWhile (in_cls k) s)"
  define m where "m = (case hi of None \<Rightarrow> n | Some h \<Rightarrow> min h n)"
  define f where "f = (\<lambda>j. rx_match (Seq (One (Chr x)) b) (drop j s) g)"
  have fail: "f j = []" if "j < n" for j
  proof -
    from that obtain r where "drop j s = (s ! j) # r" "in_cls k (s ! j)"
      unfolding n_def using takeWhile_nth_holds [of j "in_cls k" s] by blast
    with assms show ?thesis by (auto simp: f_def rx_One_Seq)
  qed
  have "m \<le> n" by (simp add: m_def split: option.splits)
  have "rx_match (Seq (Rep k lo hi) (Seq (One (Chr x)) b)) s g = concat (map f (rev [lo ..< Suc m]))"
    unfolding f_def m_def n_def by (simp add: Let_def comp_def rev_map del: upt_Suc)
  also have "\<dots> = (if m = n \<and> lo \<le> n then f n else [])"
    using fail \<open>m \<le> n\<close> by (rule concat_rev_upt_last)
  also have "m = n \<and> lo \<le> n \<longleftrightarrow> rep_ok lo hi n"
    by (auto simp: m_def rep_ok_def split: option.splits)
  finally show ?thesis by (simp add: n_def f_def Let_def)
qed

lemma rx_Grp_Rep_Seq_stop:
  assumes "\<not> in_cls k x"
  shows "rx_match (Seq (Grp name (Rep k lo hi)) (Seq (One (Chr x)) b)) s g =
     (let n = length (takeWhile (in_cls k) s) in
      if rep_ok lo hi n then rx_match (Seq (One (Chr x)) b) (drop n s) ((name, take n s) # g) else [])"
proof -
  define n where "n = length (takeWhile (in_cls k) s)"
  define m where "m = (case hi of None \<Rightarrow> n | Some h \<Rightarrow> min h n)"
  define f where "f = (\<lambda>j. rx_match (Seq (One (Chr x)) b) (drop j s) ((name, take (length s - (length s - j)) s) # g))"
  have nle: "n \<le> length s" unfolding n_def by (rule length_takeWhile_le)
  have fail: "f j = []" if "j < n" for j
  proof -
    from that obtain r where "drop j s = (s ! j) # r" "in_cls k (s ! j)"
      unfolding n_def using takeWhile_nth_holds [of j "in_cls k" s] by blast
    with assms show ?thesis by (auto simp: f_def rx_One_Seq)
  qed
  have "m \<le> n" by (simp add: m_def split: option.splits)
  have "rx_match (Seq (Grp name (Rep k lo hi)) (Seq (One (Chr x)) b)) s g = concat (map f (rev [lo ..< Suc m]))"
    unfolding f_def m_def n_def by (simp add: Let_def comp_def rev_map del: upt_Suc)
  also have "\<dots> = (if m = n \<and> lo \<le> n then f n else [])"
    using fail \<open>m \<le> n\<close> by (rule concat_rev_upt_last)
  also have "m = n \<and> lo \<le> n \<longleftrightarrow> rep_ok lo hi n"
    by (auto simp: m_def rep_ok_def split: option.splits)
  also have "f n = rx_match (Seq (One (Chr x)) b) (drop n s) ((name, take n s) # g)"
  proof -
    have "length s - (length s - n) = n" using nle by simp
    then show ?thesis unfolding f_def by simp
  qed
  finally show ?thesis by (simp add: n_def Let_def)
qed

lemma rx_Rep_exact:
  "rx_match (Rep k n (Some n)) s g =
     (if n \<le> length (takeWhile (in_cls k) s) then [(drop n s, g)] else [])"
  by (auto simp: Let_def min_def not_le)

lemma drop_eq_append: "drop n xs = a @ r \<Longrightarrow> drop (n + length a) xs = r"
  by (metis add.commute append_eq_conv_conj drop_drop)

subsection \<open>The value group of the spot pattern\<close>

lemma not_digit_dot [simp]: "\<not> is_digit CHR ''.''" "\<not> is_digit CHR ''E''" "\<not> is_digit CHR '',''"
  by (simp_all add: is_digit_def)

lemma in_cls_D_eq: "in_cls D = is_digit"
  by (rule ext) simp

lemma rx_exponent:
  "rx_match (Seq (One (Chr CHR ''E'')) (Seq (One sign_cls) (Rep D 2 (Some 2)))) x g =
     (if exponent_at x then [(drop 4 x, g)] else [])"
  by (simp add: rx_One_Seq rx_Rep_exact exponent_at_def in_cls_D_eq split: list.splits
      del: rx_match.simps)

lemma rx_fraction:
  "rx_match (Seq (Rep D 3 (Some 6))
       (Seq (One (Chr CHR ''E'')) (Seq (One sign_cls) (Rep D 2 (Some 2))))) w g =
     (let nf = length (takeWhile is_digit w) in
      if 3 \<le> nf \<and> nf \<le> 6 \<and> exponent_at (drop nf w) then [(drop (nf + 4) w, g)] else [])"
  using rx_Rep_Seq_stop [of D "CHR ''E''" 3 "Some 6" "Seq (One sign_cls) (Rep D 2 (Some 2))" w g]
  by (simp add: in_cls_D_eq rx_exponent rep_ok_def Let_def add.commute del: rx_match.simps)

lemma rx_match_value_rx:
  "rx_match value_rx s g = (case numeric_prefix s of None \<Rightarrow> [] | Some n \<Rightarrow> [(drop n s, g)])"
proof (cases s)
  case Nil
  then show ?thesis by (simp add: value_rx_def numeric_prefix_def rx_One_Seq del: rx_match.simps)
next
  case (Cons sg u)
  define ni where "ni = length (takeWhile is_digit u)"
  define F where "F = Seq (Rep D 3 (Some 6))
       (Seq (One (Chr CHR ''E'')) (Seq (One sign_cls) (Rep D 2 (Some 2))))"
  have int_part: "rx_match (Seq (Rep D 1 (Some 3)) (Seq (One (Chr CHR ''.'')) F)) u g =
      (if 1 \<le> ni \<and> ni \<le> 3 then
         (case drop ni u of [] \<Rightarrow> [] | dot # w \<Rightarrow> if dot = CHR ''.'' then rx_match F w g else [])
       else [])"
    using rx_Rep_Seq_stop [of D "CHR ''.''" 1 "Some 3" F u g]
    by (simp add: in_cls_D_eq rep_ok_def Let_def ni_def rx_One_Seq split: list.splits
        del: rx_match.simps)
  have W: "rx_match value_rx s g =
      (if is_sign sg then rx_match (Seq (Rep D 1 (Some 3)) (Seq (One (Chr CHR ''.'')) F)) u g else [])"
    by (simp add: value_rx_def F_def Cons rx_One_Seq del: rx_match.simps)
  have V: "rx_match value_rx s g =
      (if is_sign sg \<and> 1 \<le> ni \<and> ni \<le> 3 then
         (case drop ni u of [] \<Rightarrow> [] | dot # w \<Rightarrow> if dot = CHR ''.'' then rx_match F w g else [])
       else [])"
    unfolding W int_part by simp
  have N: "numeric_prefix s =
      (case drop ni u of
         [] \<Rightarrow> None
       | dot # w \<Rightarrow>
           (let nf = length (takeWhile is_digit w) in
            if is_sign sg \<and> 1 \<le> ni \<and> ni \<le> 3 \<and> dot = CHR ''.'' \<and> 3 \<le> nf \<and> nf \<le> 6
               \<and> exponent_at (drop nf w)
            then Some (ni + nf + 6) else None))"
    unfolding ni_def by (simp add: numeric_prefix_def Cons Let_def)
  show ?thesis
  proof (cases "drop ni u")
    case Nil
    show ?thesis unfolding V N Nil by simp
  next
    case dw: (Cons dot w)
    have "drop (ni + length [dot]) u = w"
      using dw by (intro drop_eq_append) simp
    then have "drop (ni + 2) s = w" by (simp add: Cons)
    then have w: "w = drop (ni + 2) s" by simp
    have "drop (nf + 4) w = drop (ni + nf + 6) s" for nf
    proof -
      have "drop (nf + 4) (drop (ni + 2) s) = drop (nf + 4 + (ni + 2)) s"
        by (rule drop_drop)
      also have "nf + 4 + (ni + 2) = ni + nf + 6" by simp
      finally show ?thesis by (simp only: w)
    qed
    then show ?thesis unfolding V N dw
      by (simp add: F_def rx_fraction Let_def del: rx_match.simps)
  qed
qed

subsection \<open>Numeric tokens\<close>

lemma dropWhile_as_drop: "drop (length (takeWhile P xs)) xs = dropWhile P xs"
  by (induction xs) auto

lemma takeWhile_digits:
  "list_all is_digit i \<Longrightarrow> \<not> is_digit c \<Longrightarrow> takeWhile is_digit (i @ c # r) = i"
  by (induction i) auto

lemma dropWhile_digits:
  "list_all is_digit i \<Longrightarrow> \<not> is_digit c \<Longrightarrow> dropWhile is_digit (i @ c # r) = c # r"
  by (induction i) auto

lemma numeric_prefix_of_form:
  assumes "is_sign sg" "list_all is_digit i" "1 \<le> length i" "length i \<le> 3"
    "list_all is_digit f" "3 \<le> length f" "length f \<le> 6"
    "is_sign es" "is_digit e1" "is_digit e2"
  shows "numeric_prefix (sg # i @ CHR ''.'' # f @ CHR ''E'' # es # e1 # e2 # r)
           = Some (length i + length f + 6)"
proof -
  have ti: "takeWhile is_digit (i @ CHR ''.'' # f @ CHR ''E'' # es # e1 # e2 # r) = i"
    using assms(2) by (simp add: takeWhile_digits)
  have tf: "takeWhile is_digit (f @ CHR ''E'' # es # e1 # e2 # r) = f"
    using assms(5) by (simp add: takeWhile_digits)
  show ?thesis
    using assms by (simp add: numeric_prefix_def ti tf Let_def exponent_at_def)
qed

lemma numeric_prefix_form:
  assumes "numeric_prefix s = Some n"
  shows "\<exists>sg i f es e1 e2 r.
           s = sg # i @ CHR ''.'' # f @ CHR ''E'' # es # e1 # e2 # r
           \<and> n = length i + length f + 6
           \<and> is_sign sg \<and> list_all is_digit i \<and> 1 \<le> length i \<and> length i \<le> 3
           \<and> list_all is_digit f \<and> 3 \<le> length f \<and> length f \<le> 6
           \<and> is_sign es \<and> is_digit e1 \<and> is_digit e2"
proof -
  from assms obtain sg u where s: "s = sg # u"
    by (cases s) (auto simp: numeric_prefix_def)
  define i where "i = takeWhile is_digit u"
  from assms s obtain dot w where dw: "dropWhile is_digit u = dot # w"
    by (cases "dropWhile is_digit u") (auto simp: numeric_prefix_def Let_def dropWhile_as_drop)
  define f where "f = takeWhile is_digit w"
  from assms s dw have c: "is_sign sg" "1 \<le> length i" "length i \<le> 3" "dot = CHR ''.''"
    "3 \<le> length f" "length f \<le> 6" "exponent_at (dropWhile is_digit w)"
    "n = length i + length f + 6"
    by (auto simp: numeric_prefix_def Let_def dropWhile_as_drop i_def f_def split: if_splits)
  from c(7) obtain es e1 e2 r where x: "dropWhile is_digit w = CHR ''E'' # es # e1 # e2 # r"
    and e: "is_sign es" "is_digit e1" "is_digit e2"
    by (auto simp: exponent_at_def split: list.splits)
  have "u = i @ dropWhile is_digit u" by (simp add: i_def)
  moreover have "w = f @ dropWhile is_digit w" by (simp add: f_def)
  ultimately have "s = sg # i @ CHR ''.'' # f @ CHR ''E'' # es # e1 # e2 # r"
    using s dw x c(4) by simp
  moreover have "list_all is_digit i" "list_all is_digit f"
    by (auto simp: i_def f_def list_all_iff dest: set_takeWhileD)
  ultimately show ?thesis using c e by blast
qed

lemma numeric_prefix_le: "numeric_prefix s = Some n \<Longrightarrow> n \<le> length s"
  by (drule numeric_prefix_form) auto

lemma numeric_prefix_take:
  "numeric_prefix s = Some n \<Longrightarrow> numeric_token (take n s)"
proof -
  assume "numeric_prefix s = Some n"
  from numeric_prefix_form [OF this] obtain sg i f es e1 e2 r where
    s: "s = sg # i @ CHR ''.'' # f @ CHR ''E'' # es # e1 # e2 # r"
    and n: "n = length i + length f + 6"
    and c: "is_sign sg" "list_all is_digit i" "1 \<le> length i" "length i \<le> 3"
      "list_all is_digit f" "3 \<le> length f" "length f \<le> 6"
      "is_sign es" "is_digit e1" "is_digit e2"
    by blast
  have "s = (sg # i @ CHR ''.'' # f @ CHR ''E'' # es # e1 # [e2]) @ r" by (simp add: s)
  moreover have "length (sg # i @ CHR ''.'' # f @ CHR ''E'' # es # e1 # [e2]) = n" by (simp add: n)
  ultimately have "take n s = sg # i @ CHR ''.'' # f @ CHR ''E'' # es # e1 # [e2]"
    by (metis append_eq_conv_conj)
  then show ?thesis
    using numeric_prefix_of_form [OF c, of "[]"] by (simp add: numeric_token_def n)
qed

lemma numeric_token_iff:
  "numeric_token t \<longleftrightarrow>
     (\<exists>sg i f es e1 e2.
        t = sg # i @ ''.'' @ f @ ''E'' @ [es, e1, e2]
        \<and> is_sign sg \<and> list_all is_digit i \<and> 1 \<le> length i \<and> length i \<le> 3
        \<and> list_all is_digit f \<and> 3 \<le> length f \<and> length f \<le> 6
        \<and> is_sign es \<and> is_digit e1 \<and> is_digit e2)"
proof
  assume "numeric_token t"
  then have "numeric_prefix t = Some (length t)" by (simp add: numeric_token_def)
  from numeric_prefix_form [OF this] obtain sg i f es e1 e2 r where
    t: "t = sg # i @ CHR ''.'' # f @ CHR ''E'' # es # e1 # e2 # r"
    and n: "length t = length i + length f + 6"
    and c: "is_sign sg" "list_all is_digit i" "1 \<le> length i" "length i \<le> 3"
      "list_all is_digit f" "3 \<le> length f" "length f \<le> 6"
      "is_sign es" "is_digit e1" "is_digit e2"
    by blast
  from t n have "r = []" by simp
  with t c show "\<exists>sg i f es e1 e2.
        t = sg # i @ ''.'' @ f @ ''E'' @ [es, e1, e2]
        \<and> is_sign sg \<and> list_all is_digit i \<and> 1 \<le> length i \<and> length i \<le> 3
        \<and> list_all is_digit f \<and> 3 \<le> length f \<and> length f \<le> 6
        \<and> is_sign es \<and> is_digit e1 \<and> is_digit e2"
    by auto
next
  assume "\<exists>sg i f es e1 e2.
        t = sg # i @ ''.'' @ f @ ''E'' @ [es, e1, e2]
        \<and> is_sign sg \<and> list_all is_digit i \<and> 1 \<le> length i \<and> length i \<le> 3
        \<and> list_all is_digit f \<and> 3 \<le> length f \<and> length f \<le> 6
        \<and> is_sign es \<and> is_digit e1 \<and> is_digit e2"
  then obtain sg i f es e1 e2 where
    t: "t = sg # i @ ''.'' @ f @ ''E'' @ [es, e1, e2]"
    and c: "is_sign sg" "list_all is_digit i" "1 \<le> length i" "length i \<le> 3"
      "list_all is_digit f" "3 \<le> length f" "length f \<le> 6"
      "is_sign es" "is_digit e1" "is_digit e2"
    by blast
  show "numeric_token t"
    using numeric_prefix_of_form [OF c, of "[]"] by (simp add: numeric_token_def t)
qed

lemma numeric_prefix_append:
  "numeric_token t \<Longrightarrow> numeric_prefix (t @ r) = Some (length t)"
proof -
  assume "numeric_token t"
  then obtain sg i f es e1 e2 where
    t: "t = sg # i @ ''.'' @ f @ ''E'' @ [es, e1, e2]"
    and c: "is_sign sg" "list_all is_digit i" "1 \<le> length i" "length i \<le> 3"
      "list_all is_digit f" "3 \<le> length f" "length f \<le> 6"
      "is_sign es" "is_digit e1" "is_digit e2"
    unfolding numeric_token_iff by blast
  show ?thesis
    using numeric_prefix_of_form [OF c, of r] by (simp add: t)
qed

subsection \<open>The number that \<^verbatim>\<open>float\<close> reads from a token\<close>

lemma foldl_dec: "foldl (\<lambda>a c. 10 * a + digit_val c) a ds = a * 10 ^ length ds + dec ds"
proof (induction ds arbitrary: a)
  case Nil
  then show ?case by (simp add: dec_def)
next
  case (Cons d ds)
  have "foldl (\<lambda>a c. 10 * a + digit_val c) a (d # ds)
        = (10 * a + digit_val d) * 10 ^ length ds + dec ds"
    using Cons.IH [of "10 * a + digit_val d"] by simp
  moreover have "dec (d # ds) = digit_val d * 10 ^ length ds + dec ds"
    using Cons.IH [of "digit_val d"] by (simp add: dec_def)
  ultimately show ?case by (simp add: algebra_simps)
qed

lemma dec_append: "dec (i @ f) = dec i * 10 ^ length f + dec f"
  by (simp add: dec_def foldl_dec [of "foldl (\<lambda>a c. 10 * a + digit_val c) 0 i"])

lemma scale10_sign:
  "scale10 q (if neg then - int n else int n) = q * (if neg then 1 / 10 ^ n else 10 ^ n)"
  by (cases "n = 0") (auto simp: scale10_def)

lemma is_sign_cases: "is_sign c \<Longrightarrow> c = CHR ''+'' \<or> c = CHR ''-''"
  by (simp add: is_sign_def)

lemma py_float_str_token:
  assumes "is_sign sg" "list_all is_digit i" "1 \<le> length i"
    "list_all is_digit f" "is_sign es" "is_digit e1" "is_digit e2"
  shows "py_float_str (sg # i @ ''.'' @ f @ ''E'' @ [es, e1, e2])
           = Inr (token_value sg i f es [e1, e2])"
proof -
  have ti: "takeWhile is_digit (i @ CHR ''.'' # f @ [CHR ''E'', es, e1, e2]) = i"
    and di: "dropWhile is_digit (i @ CHR ''.'' # f @ [CHR ''E'', es, e1, e2])
               = CHR ''.'' # f @ [CHR ''E'', es, e1, e2]"
    using assms(2) by (simp_all add: takeWhile_digits dropWhile_digits)
  have tf: "takeWhile is_digit (f @ [CHR ''E'', es, e1, e2]) = f"
    and df: "dropWhile is_digit (f @ [CHR ''E'', es, e1, e2]) = [CHR ''E'', es, e1, e2]"
    using assms(4) by (simp_all add: takeWhile_digits dropWhile_digits)
  have ex: "py_exponent [CHR ''E'', es, e1, e2]
              = Some (if es = CHR ''-'' then - int (dec [e1, e2]) else int (dec [e1, e2]))"
    using is_sign_cases [OF assms(5)] assms(6,7) by (auto simp: py_exponent_def)
  have ne: "i \<noteq> []" using assms(3) by auto
  have val: "(of_nat (dec (i @ f)) :: rat) / 10 ^ length f
               = of_nat (dec i) + of_nat (dec f) / 10 ^ length f"
    by (simp add: dec_append add_divide_distrib)
  have "py_float_str (sg # i @ CHR ''.'' # f @ [CHR ''E'', es, e1, e2])
          = Inr (scale10 ((if sg = CHR ''-'' then - 1 else 1) * of_nat (dec (i @ f)) / 10 ^ length f)
                   (if es = CHR ''-'' then - int (dec [e1, e2]) else int (dec [e1, e2])))"
    using is_sign_cases [OF assms(1)] ne
    by (auto simp: py_float_str_def ti di tf df ex Let_def)
  also have "\<dots> = Inr (token_value sg i f es [e1, e2])"
  proof -
    have m: "(c * of_nat (dec (i @ f)) / 10 ^ length f :: rat)
               = c * (of_nat (dec i) + of_nat (dec f) / 10 ^ length f)" for c
      unfolding val [symmetric] by simp
    show ?thesis unfolding m scale10_sign token_value_def by simp
  qed
  finally show ?thesis by simp
qed

lemma py_float_str_numeric_token:
  "numeric_token t \<Longrightarrow> \<exists>q. py_float_str t = Inr q"
  unfolding numeric_token_iff using py_float_str_token by blast

subsection \<open>The spot pattern as a whole\<close>

lemma list3_cases:
  obtains "s = []" | a where "s = [a]" | a b where "s = [a, b]"
  | a b c t where "s = a # b # c # t"
proof (cases s)
  case Nil
  then show ?thesis using that by simp
next
  case s1: (Cons a s')
  show ?thesis
  proof (cases s')
    case Nil
    then show ?thesis using that s1 by simp
  next
    case s2: (Cons b s'')
    show ?thesis
    proof (cases s'')
      case Nil
      then show ?thesis using that s1 s2 by simp
    next
      case (Cons c t)
      then show ?thesis using that s1 s2 by simp
    qed
  qed
qed

lemma rx_prefix:
  "rx_match (Paren (Seq (Grp ''status'' (One W)) (Seq (Grp ''chnr'' (One W)) (Grp ''dtype'' (One W)))))
     s g =
     (case s of
        c1 # c2 # c3 # t \<Rightarrow>
          if is_word c1 \<and> is_word c2 \<and> is_word c3
          then [(t, (''dtype'', [c3]) # (''chnr'', [c2]) # (''status'', [c1]) # g)] else []
      | _ \<Rightarrow> [])"
  by (auto split: list.splits)

lemma rx_value_group:
  "rx_match (Grp ''value'' value_rx) r g =
     (case numeric_prefix r of
        None \<Rightarrow> []
      | Some n \<Rightarrow> [(drop n r, (''value'', take n r) # g)])"
proof (cases "numeric_prefix r")
  case None
  then show ?thesis by (simp add: rx_match_value_rx)
next
  case (Some n)
  then have "n \<le> length r" by (rule numeric_prefix_le)
  then have "length r - (length r - n) = n" by simp
  then show ?thesis by (simp add: rx_match_value_rx Some)
qed

lemma rx_spot_pattern:
  "rx_match spot_pattern s [] =
     (case s of
        c1 # c2 # c3 # t \<Rightarrow>
          if is_word c1 \<and> is_word c2 \<and> is_word c3
          then rx_match (Grp ''value'' value_rx) t
                 [(''dtype'', [c3]), (''chnr'', [c2]), (''status'', [c1])]
          else []
      | _ \<Rightarrow> [])
     @ rx_match (Grp ''value'' value_rx) s []"
proof -
  have "rx_match spot_pattern s [] =
      concat (map (\<lambda>(r, g'). rx_match (Grp ''value'' value_rx) r g')
        (rx_match (Paren (Seq (Grp ''status'' (One W))
                         (Seq (Grp ''chnr'' (One W)) (Grp ''dtype'' (One W))))) s []
         @ [(s, [])]))"
    by (simp add: spot_pattern_def del: rx_match.simps(1,2,5,6))
  then show ?thesis
    unfolding rx_prefix by (auto split: list.splits simp del: rx_match.simps)
qed

lemma re_match_spot_pattern:
  "re_match spot_pattern s =
     map_option (\<lambda>(p, tok). \<lparr>m_end = length p + length tok, m_caps = (''value'', tok) # prefix_caps p\<rparr>)
       (spot_split s)"
proof (cases "\<exists>c1 c2 c3 t n. s = c1 # c2 # c3 # t \<and> is_word c1 \<and> is_word c2 \<and> is_word c3
                 \<and> numeric_prefix t = Some n")
  case True
  then obtain c1 c2 c3 t n where s: "s = c1 # c2 # c3 # t"
    and w: "is_word c1" "is_word c2" "is_word c3" and n: "numeric_prefix t = Some n"
    by blast
  from n have le: "n \<le> length t" by (rule numeric_prefix_le)
  have "spot_split s = Some ([c1, c2, c3], take n t)"
    by (simp add: spot_split_def s w n)
  moreover have "rx_match spot_pattern s [] =
      (drop n t, [(''value'', take n t), (''dtype'', [c3]), (''chnr'', [c2]), (''status'', [c1])])
      # rx_match (Grp ''value'' value_rx) s []"
    unfolding rx_spot_pattern by (simp add: s w n rx_value_group del: rx_match.simps)
  ultimately show ?thesis
    using le by (simp add: re_match_def prefix_caps_def s min_absorb2 del: rx_match.simps)
next
  case False
  have both: "spot_split s = map_option (\<lambda>n. ([], take n s)) (numeric_prefix s)
      \<and> rx_match spot_pattern s [] = rx_match (Grp ''value'' value_rx) s []"
  proof (cases s rule: list3_cases)
    case (4 c1 c2 c3 t)
    show ?thesis
    proof (cases "is_word c1 \<and> is_word c2 \<and> is_word c3")
      case True
      with False 4 have "numeric_prefix t = None" by auto
      with True 4 show ?thesis
        unfolding rx_spot_pattern by (simp add: spot_split_def rx_value_group del: rx_match.simps)
    next
      case nw: False
      with 4 show ?thesis
        unfolding rx_spot_pattern by (auto simp: spot_split_def simp del: rx_match.simps)
    qed
  qed (simp_all add: rx_spot_pattern spot_split_def del: rx_match.simps)
  then have split: "spot_split s = map_option (\<lambda>n. ([], take n s)) (numeric_prefix s)"
    and rx: "rx_match spot_pattern s [] = rx_match (Grp ''value'' value_rx) s []"
    by simp_all
  show ?thesis
  proof (cases "numeric_prefix s")
    case None
    then show ?thesis by (simp add: re_match_def rx split rx_value_group del: rx_match.simps)
  next
    case (Some n)
    then have "n \<le> length s" by (rule numeric_prefix_le)
    then show ?thesis
      by (simp add: re_match_def rx split rx_value_group Some prefix_caps_def min_absorb2
          del: rx_match.simps)
  qed
qed

lemma spot_split_cases:
  assumes "spot_split s = Some (p, tok)"
  shows "numeric_token tok \<and> (\<exists>r. s = p @ tok @ r) \<and> (p = [] \<or> (length p = 3 \<and> list_all is_word p))"
proof -
  have tk: "numeric_prefix r = Some n \<Longrightarrow> numeric_token (take n r) \<and> r = take n r @ drop n r" for r n
    by (simp add: numeric_prefix_take)
  from assms show ?thesis
    unfolding spot_split_def
    by (auto split: list.splits option.splits if_splits dest!: tk)
      (metis append_take_drop_id)+
qed

lemma parse_spot_split:
  "parse_spot_measurement_response s =
     (case spot_split s of
        None \<Rightarrow> Inl (ValueError s)
      | Some (p, tok) \<Rightarrow>
          (case py_float_str tok of
             Inl e \<Rightarrow> Inl e
           | Inr q \<Rightarrow>
               Inr [''status'' \<mapsto> prefix_field p 0, ''chnr'' \<mapsto> prefix_field p 1,
                    ''dtype'' \<mapsto> prefix_field p 2, ''value'' \<mapsto> PFloat q]))"
proof (cases "spot_split s")
  case None
  then show ?thesis
    by (simp add: parse_spot_measurement_response_def re_match_spot_pattern)
next
  case (Some x)
  obtain p tok where x: "x = (p, tok)" by (cases x)
  from spot_split_cases [OF Some [unfolded x]]
  have p: "p = [] \<or> (\<exists>c1 c2 c3. p = [c1, c2, c3])"
    by (auto simp: length_Suc_conv numeral_3_eq_3)
  have names: "group_names spot_pattern = [''status'', ''chnr'', ''dtype'', ''value'']"
    by (simp add: spot_pattern_def value_rx_def)
  show ?thesis
  proof (cases "py_float_str tok")
    case (Inl e)
    with p show ?thesis
      by (auto simp: parse_spot_measurement_response_def re_match_spot_pattern Some x
          groupdict_def names prefix_caps_def)
  next
    case (Inr q)
    with p show ?thesis
      by (auto simp: parse_spot_measurement_response_def re_match_spot_pattern Some x
          groupdict_def names prefix_caps_def prefix_field_def fun_eq_iff)
  qed
qed

subsection \<open>Records at the start of a response\<close>

lemma sign_not_word: "is_sign c \<Longrightarrow> \<not> is_word c"
  by (auto simp: is_sign_def is_word_def is_digit_def)

lemma numeric_token_starts:
  "numeric_token t \<Longrightarrow> \<exists>sg u. t = sg # u \<and> is_sign sg"
  unfolding numeric_token_iff by auto

lemma numeric_prefix_word: "is_word c \<Longrightarrow> numeric_prefix (c # u) = None"
  using sign_not_word [of c] by (auto simp: numeric_prefix_def Let_def split: list.splits)

lemma spot_split_token:
  assumes "numeric_token n"
  shows "spot_split (n @ r) = Some ([], n)"
proof -
  from numeric_token_starts [OF assms] obtain sg u where n: "n = sg # u" and sg: "is_sign sg"
    by blast
  have "(case n @ r of
           c1 # c2 # c3 # t \<Rightarrow>
             if is_word c1 \<and> is_word c2 \<and> is_word c3
             then map_option (\<lambda>k. ([c1, c2, c3], take k t)) (numeric_prefix t) else None
         | _ \<Rightarrow> None) = None"
    using sign_not_word [OF sg] by (simp add: n split: list.splits)
  then show ?thesis
    by (simp add: spot_split_def numeric_prefix_append [OF assms])
qed

lemma spot_split_prefixed:
  assumes "is_word c1" "is_word c2" "is_word c3" "numeric_token n"
  shows "spot_split (c1 # c2 # c3 # n @ r) = Some ([c1, c2, c3], n)"
  using assms by (simp add: spot_split_def numeric_prefix_append)

lemma spot_split_record:
  assumes "spot_record t"
  shows "\<exists>p n. t = p @ n \<and> (\<forall>r. spot_split (t @ r) = Some (p, n))"
proof -
  from assms consider "numeric_token t"
    | c1 c2 c3 n where "t = c1 # c2 # c3 # n" "is_word c1" "is_word c2" "is_word c3" "numeric_token n"
    by (auto simp: spot_record_def split: list.splits)
  then show ?thesis
  proof cases
    case 1
    then have "\<forall>r. spot_split (t @ r) = Some ([], t)" by (simp add: spot_split_token)
    then show ?thesis by (intro exI [of _ "[]"] exI [of _ t]) simp
  next
    case 2
    then have "\<forall>r. spot_split (t @ r) = Some ([c1, c2, c3], n)"
      by (simp add: spot_split_prefixed)
    with 2(1) show ?thesis by (intro exI [of _ "[c1, c2, c3]"] exI [of _ n]) simp
  qed
qed

lemma spot_split_Some_record:
  assumes "spot_split s = Some (p, n)"
  shows "\<exists>r. s = (p @ n) @ r \<and> spot_record (p @ n)"
proof -
  from spot_split_cases [OF assms] obtain r where
    n: "numeric_token n" and s: "s = p @ n @ r" and p: "p = [] \<or> (length p = 3 \<and> list_all is_word p)"
    by blast
  from p have "spot_record (p @ n)"
  proof
    assume "p = []"
    with n show ?thesis by (simp add: spot_record_def)
  next
    assume "length p = 3 \<and> list_all is_word p"
    then obtain c1 c2 c3 where "p = [c1, c2, c3]" "is_word c1" "is_word c2" "is_word c3"
      by (auto simp: length_Suc_conv numeral_3_eq_3)
    with n show ?thesis by (simp add: spot_record_def)
  qed
  with s show ?thesis by simp
qed

lemma parse_spot_ok_iff:
  "(\<exists>d. parse_spot_measurement_response s = Inr d) \<longleftrightarrow> spot_split s \<noteq> None"
proof (cases "spot_split s")
  case None
  then show ?thesis by (simp add: parse_spot_split)
next
  case (Some x)
  obtain p n where x: "x = (p, n)" by (cases x)
  from spot_split_cases [OF Some [unfolded x]] have "numeric_token n" by blast
  from py_float_str_numeric_token [OF this] obtain q where "py_float_str n = Inr q" by blast
  then show ?thesis by (simp add: parse_spot_split Some x)
qed

lemma parse_spot_error:
  "parse_spot_measurement_response s = Inl e \<Longrightarrow> e = ValueError s \<and> spot_split s = None"
proof (cases "spot_split s")
  case None
  assume "parse_spot_measurement_response s = Inl e"
  with None show ?thesis by (simp add: parse_spot_split)
next
  case (Some x)
  assume e: "parse_spot_measurement_response s = Inl e"
  from Some have "\<exists>d. parse_spot_measurement_response s = Inr d"
    by (simp add: parse_spot_ok_iff)
  with e show ?thesis by auto
qed

section \<open>The spot-measurement parser\<close>

text \<open>
  C3. A response made of three word characters \<open>c1\<close>, \<open>c2\<close>, \<open>c3\<close> and a numeric
  token (a sign, one to three digits, a point, three to six digits, \<^verbatim>\<open>E\<close>, a sign,
  two digits) parses: status, channel and data type are the three characters, in that
  order, and the value is the number the token denotes.
\<close>

theorem parse_spot_measurement_response_prefixed:
  assumes "is_word c1" "is_word c2" "is_word c3"
    and "is_sign sg" "list_all is_digit i" "1 \<le> length i" "length i \<le> 3"
    and "list_all is_digit f" "3 \<le> length f" "length f \<le> 6"
    and "is_sign es" "is_digit e1" "is_digit e2"
  shows "parse_spot_measurement_response ([c1, c2, c3] @ sg # i @ ''.'' @ f @ ''E'' @ [es, e1, e2])
           = Inr [''status'' \<mapsto> PStr [c1], ''chnr'' \<mapsto> PStr [c2], ''dtype'' \<mapsto> PStr [c3],
                  ''value'' \<mapsto> PFloat (token_value sg i f es [e1, e2])]"
proof -
  let ?n = "sg # i @ ''.'' @ f @ ''E'' @ [es, e1, e2]"
  have tok: "numeric_token ?n"
    unfolding numeric_token_iff using assms by blast
  have "spot_split (c1 # c2 # c3 # ?n @ []) = Some ([c1, c2, c3], ?n)"
    using assms(1-3) tok by (rule spot_split_prefixed)
  moreover have "py_float_str ?n = Inr (token_value sg i f es [e1, e2])"
    using assms by (intro py_float_str_token)
  ultimately show ?thesis
    by (simp add: parse_spot_split prefix_field_def)
qed

theorem parse_spot_measurement_response_prefixed_witness:
  "parse_spot_measurement_response ''WAV+001.2345E+06''
     = Inr [''status'' \<mapsto> PStr ''W'', ''chnr'' \<mapsto> PStr ''A'', ''dtype'' \<mapsto> PStr ''V'',
            ''value'' \<mapsto> PFloat 1234500]"
proof -
  have v: "token_value CHR ''+'' ''001'' ''2345'' CHR ''+'' ''06'' = 1234500"
    by (simp add: token_value_def dec_def digit_val_def)
  show ?thesis
    using parse_spot_measurement_response_prefixed
      [of "CHR ''W''" "CHR ''A''" "CHR ''V''" "CHR ''+''" "''001''" "''2345''" "CHR ''+''"
          "CHR ''0''" "CHR ''6''"]
    by (simp add: is_word_def is_digit_def is_sign_def v)
qed



text \<open>
  C9. A returned dictionary has exactly the keys \<^verbatim>\<open>status\<close>, \<^verbatim>\<open>chnr\<close>,
  \<^verbatim>\<open>dtype\<close> and \<^verbatim>\<open>value\<close> (there is no key \<^verbatim>\<open>channel\<close>); the value is a
  number, and each of the other three is \<^verbatim>\<open>None\<close> or a string of one character.
\<close>

theorem parse_spot_measurement_response_keys:
  assumes "parse_spot_measurement_response s = Inr d"
  shows "dom d = {''status'', ''chnr'', ''dtype'', ''value''}
    \<and> (\<exists>q. d ''value'' = Some (PFloat q))
    \<and> (\<forall>k \<in> {''status'', ''chnr'', ''dtype''}. d k = Some PNone \<or> (\<exists>c. d k = Some (PStr [c])))
    \<and> d ''channel'' = None"
proof -
  from assms have "spot_split s \<noteq> None" using parse_spot_ok_iff [of s] by blast
  then obtain p n where sp: "spot_split s = Some (p, n)" by auto
  from assms sp obtain q where
    d: "d = [''status'' \<mapsto> prefix_field p 0, ''chnr'' \<mapsto> prefix_field p 1,
             ''dtype'' \<mapsto> prefix_field p 2, ''value'' \<mapsto> PFloat q]"
    by (auto simp: parse_spot_split split: sum.splits)
  have "dom d = {''status'', ''chnr'', ''dtype'', ''value''}"
    unfolding d by auto
  moreover have "\<exists>q. d ''value'' = Some (PFloat q)"
    unfolding d by simp
  moreover have "\<forall>k \<in> {''status'', ''chnr'', ''dtype''}. d k = Some PNone \<or> (\<exists>c. d k = Some (PStr [c]))"
    unfolding d by (simp add: prefix_field_def)
  moreover have "d ''channel'' = None"
    unfolding d by simp
  ultimately show ?thesis by blast
qed

theorem parse_spot_measurement_response_keys_witness:
  "parse_spot_measurement_response ''WAV+001.2345E+06''
     = Inr [''status'' \<mapsto> PStr ''W'', ''chnr'' \<mapsto> PStr ''A'', ''dtype'' \<mapsto> PStr ''V'',
            ''value'' \<mapsto> PFloat 1234500]
   \<and> dom [''status'' \<mapsto> PStr ''W'', ''chnr'' \<mapsto> PStr ''A'', ''dtype'' \<mapsto> PStr ''V'',
          ''value'' \<mapsto> PFloat 1234500] = {''status'', ''chnr'', ''dtype'', ''value''}"
proof -
  have tok: "numeric_token ''+001.2345E+06''"
    by (simp add: numeric_token_def numeric_prefix_def exponent_at_def is_digit_def is_sign_def)
  have "spot_split (CHR ''W'' # CHR ''A'' # CHR ''V'' # ''+001.2345E+06'' @ [])
          = Some (''WAV'', ''+001.2345E+06'')"
    by (rule spot_split_prefixed) (simp_all add: tok is_word_def)
  moreover have "py_float_str (CHR ''+'' # ''001'' @ ''.'' @ ''2345'' @ ''E'' @ [CHR ''+'', CHR ''0'', CHR ''6''])
      = Inr (token_value CHR ''+'' ''001'' ''2345'' CHR ''+'' ''06'')"
    by (rule py_float_str_token) (simp_all add: is_digit_def is_sign_def)
  moreover have "token_value CHR ''+'' ''001'' ''2345'' CHR ''+'' ''06'' = 1234500"
    by (simp add: token_value_def dec_def digit_val_def)
  ultimately have e: "parse_spot_measurement_response ''WAV+001.2345E+06''
     = Inr [''status'' \<mapsto> PStr ''W'', ''chnr'' \<mapsto> PStr ''A'', ''dtype'' \<mapsto> PStr ''V'',
            ''value'' \<mapsto> PFloat 1234500]"
    by (simp add: parse_spot_split prefix_field_def)
  show ?thesis
    using e parse_spot_measurement_response_keys [OF e, THEN conjunct1] by (rule conjI)
qed

text \<open>
  C10. One or two word characters before a numeric token make the response fail: the
  optional group needs three word characters, and a token starts with a sign.
\<close>

theorem parse_spot_measurement_response_partial_prefix:
  assumes "is_word c1" "is_word c2" "numeric_token t"
  shows "parse_spot_measurement_response ([c1] @ t) = Inl (ValueError ([c1] @ t))
       \<and> parse_spot_measurement_response ([c1, c2] @ t) = Inl (ValueError ([c1, c2] @ t))"
proof -
  from numeric_token_starts [OF assms(3)] obtain sg u where t: "t = sg # u" and sg: "is_sign sg"
    by blast
  have nw: "\<not> is_word sg" using sg by (rule sign_not_word)
  have np: "numeric_prefix (c1 # x) = None" for x
    using assms(1) by (rule numeric_prefix_word)
  have "spot_split (c1 # sg # u) = None"
    by (cases u) (simp_all add: spot_split_def np nw)
  moreover have "spot_split (c1 # c2 # sg # u) = None"
    by (simp add: spot_split_def np nw)
  ultimately show ?thesis by (simp add: parse_spot_split t)
qed

theorem parse_spot_measurement_response_partial_prefix_witness:
  "parse_spot_measurement_response ''W+001.2345E+06'' = Inl (ValueError ''W+001.2345E+06'')
   \<and> parse_spot_measurement_response ''WA+001.2345E+06'' = Inl (ValueError ''WA+001.2345E+06'')"
proof -
  have tok: "numeric_token ''+001.2345E+06''"
    by (simp add: numeric_token_def numeric_prefix_def exponent_at_def is_digit_def is_sign_def)
  have w: "is_word CHR ''W''" "is_word CHR ''A''" by (simp_all add: is_word_def)
  from parse_spot_measurement_response_partial_prefix [OF w tok] show ?thesis by simp
qed

text \<open>
  C5. \<^verbatim>\<open>parse_spot_measurement_response\<close> raises exactly when no record stands at
  the start of the response, and the error then carries the response; what follows a
  record is ignored. The response \<^verbatim>\<open>hello\<close> fails with itself in the error.
\<close>

theorem parse_spot_measurement_response_error:
  "((\<exists>e. parse_spot_measurement_response s = Inl e) \<longleftrightarrow> \<not> (\<exists>t r. s = t @ r \<and> spot_record t))
   \<and> (parse_spot_measurement_response s = Inl e \<longrightarrow> e = ValueError s)
   \<and> (spot_record t \<longrightarrow> parse_spot_measurement_response (t @ r) = parse_spot_measurement_response t)
   \<and> parse_spot_measurement_response ''hello'' = Inl (ValueError ''hello'')"
proof (intro conjI impI)
  have ok: "(\<exists>d. parse_spot_measurement_response s = Inr d) \<longleftrightarrow> (\<exists>t r. s = t @ r \<and> spot_record t)"
  proof
    assume "\<exists>d. parse_spot_measurement_response s = Inr d"
    then have "spot_split s \<noteq> None" by (simp add: parse_spot_ok_iff)
    then obtain p n where "spot_split s = Some (p, n)" by auto
    from spot_split_Some_record [OF this] show "\<exists>t r. s = t @ r \<and> spot_record t" by blast
  next
    assume "\<exists>t r. s = t @ r \<and> spot_record t"
    then obtain t r where s: "s = t @ r" and t: "spot_record t" by blast
    from spot_split_record [OF t] have "spot_split s \<noteq> None" by (auto simp: s)
    then show "\<exists>d. parse_spot_measurement_response s = Inr d" by (simp add: parse_spot_ok_iff)
  qed
  have "(\<exists>e. parse_spot_measurement_response s = Inl e) \<longleftrightarrow> \<not> (\<exists>d. parse_spot_measurement_response s = Inr d)"
    by (cases "parse_spot_measurement_response s") auto
  with ok show "(\<exists>e. parse_spot_measurement_response s = Inl e) \<longleftrightarrow> \<not> (\<exists>t r. s = t @ r \<and> spot_record t)"
    by simp
next
  assume "parse_spot_measurement_response s = Inl e"
  then show "e = ValueError s" using parse_spot_error by blast
next
  assume t: "spot_record t"
  from spot_split_record [OF t] obtain p n where sp: "\<forall>r. spot_split (t @ r) = Some (p, n)"
    by blast
  from sp have "spot_split (t @ r) = Some (p, n)" by blast
  moreover from sp have "spot_split (t @ []) = Some (p, n)" by blast
  ultimately show "parse_spot_measurement_response (t @ r) = parse_spot_measurement_response t"
    by (simp add: parse_spot_split)
next
  show "parse_spot_measurement_response ''hello'' = Inl (ValueError ''hello'')"
    by (simp add: parse_spot_split spot_split_def numeric_prefix_def is_sign_def Let_def)
qed

theorem parse_spot_measurement_response_error_witness:
  "parse_spot_measurement_response ''hello'' = Inl (ValueError ''hello'')
   \<and> spot_record ''+001.234E-02''
   \<and> parse_spot_measurement_response (''+001.234E-02'' @ '' V'')
       = parse_spot_measurement_response ''+001.234E-02''
   \<and> (\<exists>d. parse_spot_measurement_response ''+001.234E-02 V'' = Inr d)"
proof -
  have rec: "spot_record ''+001.234E-02''"
    by (simp add: spot_record_def numeric_token_def numeric_prefix_def exponent_at_def
        is_digit_def is_sign_def)
  have a: "parse_spot_measurement_response (''+001.234E-02'' @ '' V'')
       = parse_spot_measurement_response ''+001.234E-02''"
    using parse_spot_measurement_response_error [of "''hello''" "ValueError ''hello''" "''+001.234E-02''" "'' V''"]
      rec by blast
  have "\<exists>t r. ''+001.234E-02 V'' = t @ r \<and> spot_record t"
    using rec by (intro exI [of _ "''+001.234E-02''"] exI [of _ "'' V''"]) simp
  then have "\<not> (\<exists>e. parse_spot_measurement_response ''+001.234E-02 V'' = Inl e)"
    using parse_spot_measurement_response_error [of "''+001.234E-02 V''" "ValueError ''hello''" "''+001.234E-02''" "'' V''"]
    by blast
  then have b: "\<exists>d. parse_spot_measurement_response ''+001.234E-02 V'' = Inr d"
    by (cases "parse_spot_measurement_response ''+001.234E-02 V''") auto
  have c: "parse_spot_measurement_response ''hello'' = Inl (ValueError ''hello'')"
    using parse_spot_measurement_response_error [of "''hello''" "ValueError ''hello''" "''+001.234E-02''" "'' V''"]
    by blast
  from a b c rec show ?thesis by blast
qed

section \<open>The module inventory parser\<close>

subsection \<open>The module pattern\<close>

lemma first_success_append:
  "first_success (xs @ ys) = (case first_success xs of None \<Rightarrow> first_success ys | Some x \<Rightarrow> Some x)"
  by (cases xs) (simp_all add: first_success_def)

lemma re_match_first:
  "re_match p s =
     map_option (\<lambda>(r, g). \<lparr>m_end = length s - length r, m_caps = g\<rparr>)
       (first_success (rx_match p s []))"
  by (simp add: re_match_def first_success_def split: list.splits)

lemma in_cls_W_eq: "in_cls W = is_word"
  by (rule ext) simp

lemma not_word_comma [simp]: "\<not> is_word CHR '',''" "\<not> is_word CHR '';''"
  by (simp_all add: is_word_def is_digit_def)

lemma takeWhile_as_take: "take (length (takeWhile P xs)) xs = takeWhile P xs"
  by (induction xs) auto

lemma rx_revision:
  "first_success (rx_match (Grp ''revision'' (Rep D 1 None)) v g) =
     (if takeWhile is_digit v \<noteq> []
      then Some (dropWhile is_digit v, (''revision'', takeWhile is_digit v) # g) else None)"
proof (cases "takeWhile is_digit v = []")
  case True
  then show ?thesis by (simp add: first_success_def in_cls_D_eq)
next
  case False
  define k where "k = length (takeWhile is_digit v)"
  from False have k: "1 \<le> k" by (simp add: k_def Suc_leI)
  have le: "k \<le> length v" unfolding k_def by (rule length_takeWhile_le)
  from k have "rev [1 ..< Suc k] = k # rev [1 ..< k]" by simp
  then have "rx_match (Grp ''revision'' (Rep D 1 None)) v g =
      (drop k v, (''revision'', take (length v - (length v - k)) v) # g)
      # map (\<lambda>(r, g'). (r, (''revision'', take (length v - length r) v) # g'))
          (map (\<lambda>j. (drop j v, g)) (rev [1 ..< k]))"
    by (simp add: in_cls_D_eq k_def [symmetric] Let_def del: upt_Suc)
  moreover have "length v - (length v - k) = k" using le by simp
  ultimately show ?thesis
    using False by (simp add: first_success_def k_def takeWhile_as_take dropWhile_as_drop)
qed

lemma rx_module_rest:
  "first_success (rx_match (Seq (Grp ''model'' (Rep W 1 None))
       (Seq (One (Chr CHR '','')) (Grp ''revision'' (Rep D 1 None)))) t g) =
     map_option (\<lambda>(w, d, rest). (rest, [(''revision'', d), (''model'', w)] @ g)) (entry_body t)"
proof -
  define w where "w = takeWhile is_word t"
  have stop: "\<not> in_cls W CHR '',''" by simp
  have ok: "rep_ok 1 None (length w) \<longleftrightarrow> w \<noteq> []"
    by (cases w) (simp_all add: rep_ok_def)
  have "rx_match (Seq (Grp ''model'' (Rep W 1 None))
       (Seq (One (Chr CHR '','')) (Grp ''revision'' (Rep D 1 None)))) t g =
      (if rep_ok 1 None (length w)
       then rx_match (Seq (One (Chr CHR '','')) (Grp ''revision'' (Rep D 1 None)))
              (drop (length w) t) ((''model'', take (length w) t) # g)
       else [])"
    unfolding rx_Grp_Rep_Seq_stop [OF stop] in_cls_W_eq w_def Let_def by (rule refl)
  also have "\<dots> =
      (if w \<noteq> []
       then rx_match (Seq (One (Chr CHR '','')) (Grp ''revision'' (Rep D 1 None)))
              (dropWhile is_word t) ((''model'', w) # g)
       else [])"
    unfolding ok unfolding w_def takeWhile_as_take dropWhile_as_drop by (rule refl)
  finally have r: "rx_match (Seq (Grp ''model'' (Rep W 1 None))
       (Seq (One (Chr CHR '','')) (Grp ''revision'' (Rep D 1 None)))) t g =
      (if w \<noteq> []
       then rx_match (Seq (One (Chr CHR '','')) (Grp ''revision'' (Rep D 1 None)))
              (dropWhile is_word t) ((''model'', w) # g)
       else [])" .
  show ?thesis
  proof (cases "dropWhile is_word t")
    case Nil
    show ?thesis
      unfolding r rx_One_Seq entry_body_def Nil
      by (simp add: first_success_def del: rx_match.simps)
  next
    case (Cons c v)
    show ?thesis
      unfolding r rx_One_Seq entry_body_def Cons
      by (simp add: first_success_def [of "[]"] rx_revision [unfolded One_nat_def] w_def Let_def
          del: rx_match.simps)
  qed
qed

lemma entry_body_semicolon: "entry_body (CHR '';'' # r) = None"
  by (simp add: entry_body_def)

lemma re_match_module_pattern:
  "re_match module_pattern s =
     map_option (\<lambda>(w, d, rest). \<lparr>m_end = length s - length rest,
                                   m_caps = [(''revision'', d), (''model'', w)]\<rparr>)
       (entry_at s)"
proof -
  let ?rest = "Seq (Grp ''model'' (Rep W 1 None))
       (Seq (One (Chr CHR '','')) (Grp ''revision'' (Rep D 1 None)))"
  have m: "rx_match module_pattern s [] =
      (case s of [] \<Rightarrow> [] | c # r \<Rightarrow> if c = CHR '';'' then rx_match ?rest r [] else [])
      @ rx_match ?rest s []"
    unfolding module_pattern_def
      rx_match.simps(3) [of "Opt (One (Chr CHR '';''))"] rx_match.simps(4) rx_match.simps(1)
    by (simp split: list.splits del: rx_match.simps)
  have "first_success (rx_match module_pattern s []) =
      map_option (\<lambda>(w, d, rest). (rest, [(''revision'', d), (''model'', w)])) (entry_at s)"
  proof (cases s)
    case Nil
    then show ?thesis
      unfolding m first_success_append
      using rx_module_rest [of "[]" "[]"]
      by (simp add: entry_at_def entry_body_def first_success_def del: rx_match.simps)
  next
    case (Cons c r)
    show ?thesis
    proof (cases "c = CHR '';''")
      case True
      have "first_success (rx_match ?rest s []) = None"
        using rx_module_rest [of s "[]"] by (simp add: Cons True entry_body_semicolon)
      then show ?thesis
        unfolding m first_success_append
        using rx_module_rest [of r "[]"]
        by (simp add: Cons True entry_at_def split: option.splits del: rx_match.simps)
    next
      case False
      then show ?thesis
        unfolding m first_success_append
        using rx_module_rest [of s "[]"]
        by (simp add: Cons entry_at_def first_success_def del: rx_match.simps)
    qed
  qed
  then show ?thesis
    by (cases "entry_at s") (auto simp: re_match_first)
qed

declare re_findall.simps [simp del] inventory_entries.simps [simp del]

subsection \<open>The matches of \<^verbatim>\<open>re.findall\<close> are the entries\<close>

lemma entry_body_decomp:
  "entry_body t = Some (w, d, rest) \<Longrightarrow> t = w @ CHR '','' # d @ rest"
proof -
  assume e: "entry_body t = Some (w, d, rest)"
  then obtain v where tv: "dropWhile is_word t = CHR '','' # v"
    and w: "w = takeWhile is_word t" and d: "d = takeWhile is_digit v"
    and rest: "rest = dropWhile is_digit v"
    by (auto simp: entry_body_def Let_def split: list.splits if_splits)
  have "t = takeWhile is_word t @ dropWhile is_word t" by simp
  also have "\<dots> = w @ CHR '','' # v" by (simp add: tv w)
  also have "v = d @ rest" by (simp add: d rest)
  finally show ?thesis .
qed

lemma entry_at_decomp:
  "entry_at s = Some (w, d, rest) \<Longrightarrow> \<exists>pre. s = pre @ rest \<and> pre \<noteq> []"
proof -
  assume e: "entry_at s = Some (w, d, rest)"
  then obtain c r where s: "s = c # r" by (cases s) (auto simp: entry_at_def)
  show ?thesis
  proof (cases "c = CHR '';''")
    case True
    with e s have "entry_body r = Some (w, d, rest)" by (simp add: entry_at_def)
    from entry_body_decomp [OF this] have "s = (c # w @ [CHR '','']  @ d) @ rest" by (simp add: s)
    then show ?thesis by blast
  next
    case False
    with e s have "entry_body s = Some (w, d, rest)" by (simp add: entry_at_def)
    from entry_body_decomp [OF this] have "s = (w @ [CHR '','']  @ d) @ rest" by simp
    then show ?thesis by blast
  qed
qed

lemma entry_at_drop:
  assumes "entry_at s = Some (w, d, rest)"
  shows "length s - length rest \<noteq> 0" and "drop (length s - length rest) s = rest"
proof -
  from entry_at_decomp [OF assms] obtain pre where s: "s = pre @ rest" and pre: "pre \<noteq> []"
    by blast
  from pre show "length s - length rest \<noteq> 0" by (simp add: s)
  show "drop (length s - length rest) s = rest" by (simp add: s)
qed

lemma group_names_module_pattern: "group_names module_pattern = [''model'', ''revision'']"
  by (simp add: module_pattern_def)

lemma re_findall_module_pattern:
  "re_findall module_pattern s = map (\<lambda>(model, revision). [model, revision]) (inventory_entries s)"
proof (induction s rule: inventory_entries.induct)
  case (1 s)
  show ?case
  proof (cases "entry_at s")
    case None
    then have m: "re_match module_pattern s = None" by (simp add: re_match_module_pattern)
    show ?thesis
    proof (cases s)
      case Nil
      show ?thesis
        using None m unfolding Nil
        by (simp add: re_findall.simps [of module_pattern "[]"] inventory_entries.simps [of "[]"])
    next
      case (Cons c s')
      show ?thesis
        using 1(1) [OF None Cons] None m unfolding Cons
        by (simp add: re_findall.simps [of module_pattern "c # s'"]
            inventory_entries.simps [of "c # s'"])
    qed
  next
    case (Some x)
    obtain w d rest where x: "x = (w, d, rest)" by (cases x)
    from Some x have e: "entry_at s = Some (w, d, rest)" by simp
    then have m: "re_match module_pattern s =
        Some \<lparr>m_end = length s - length rest, m_caps = [(''revision'', d), (''model'', w)]\<rparr>"
      by (simp add: re_match_module_pattern)
    have t: "groups_tuple module_pattern
        \<lparr>m_end = length s - length rest, m_caps = [(''revision'', d), (''model'', w)]\<rparr> = [w, d]"
      by (simp add: groups_tuple_def group_names_module_pattern)
    from 1(2) [OF Some x [symmetric] refl] have ih: "re_findall module_pattern rest =
        map (\<lambda>(model, revision). [model, revision]) (inventory_entries rest)" .
    show ?thesis
      using entry_at_drop [OF e]
      by (simp add: re_findall.simps [of module_pattern s] inventory_entries.simps [of s]
          e m t ih)
  qed
qed

subsection \<open>The dictionary of slots\<close>

lemma all_less_Suc_shift: "(\<forall>j<Suc n. P j) \<longleftrightarrow> P 0 \<and> (\<forall>j<n. P (Suc j))"
  by (metis less_Suc_eq_0_disj Suc_less_eq zero_less_Suc)

lemma module_dict_enumerate_gen:
  "module_dict valid (enumerate_from n (map (\<lambda>(model, revision). [model, revision]) es)) m =
     (if \<forall>j<length es. fst (es ! j) \<noteq> ''0'' \<longrightarrow> valid (n + int j)
      then Inr (\<lambda>k. if n \<le> k \<and> k < n + int (length es) \<and> fst (es ! nat (k - n)) \<noteq> ''0''
                    then Some (fst (es ! nat (k - n))) else m k)
      else Inl (ValueError ''SlotNr''))"
proof (induction es arbitrary: n m)
  case Nil
  then show ?case by (auto simp: fun_eq_iff)
next
  case (Cons e es)
  obtain w d where e: "e = (w, d)" by (cases e)
  let ?ok = "\<lambda>n es. \<forall>j<length es. fst (es ! j) \<noteq> ''0'' \<longrightarrow> valid (n + int j)"
  have ok: "?ok n (e # es) \<longleftrightarrow> (w \<noteq> ''0'' \<longrightarrow> valid n) \<and> ?ok (n + 1) es"
  proof -
    have "?ok n (e # es) \<longleftrightarrow>
        (fst ((e # es) ! 0) \<noteq> ''0'' \<longrightarrow> valid (n + int 0))
        \<and> (\<forall>j<length es. fst ((e # es) ! Suc j) \<noteq> ''0'' \<longrightarrow> valid (n + int (Suc j)))"
      unfolding length_Cons by (rule all_less_Suc_shift)
    also have "\<dots> \<longleftrightarrow> (w \<noteq> ''0'' \<longrightarrow> valid n) \<and> ?ok (n + 1) es"
      by (simp add: e ac_simps)
    finally show ?thesis .
  qed
  have idx: "(e # es) ! nat (k - n) = es ! nat (k - (n + 1))" if "n + 1 \<le> k" for k
  proof -
    from that have "nat (k - n) = Suc (nat (k - (n + 1)))" by simp
    then show ?thesis by simp
  qed
  have shift: "(\<lambda>k. if n + 1 \<le> k \<and> k < n + 1 + int (length es) \<and> fst (es ! nat (k - (n + 1))) \<noteq> ''0''
              then Some (fst (es ! nat (k - (n + 1)))) else m' k)
        = (\<lambda>k. if n \<le> k \<and> k < n + int (length (e # es)) \<and> fst ((e # es) ! nat (k - n)) \<noteq> ''0''
              then Some (fst ((e # es) ! nat (k - n))) else m k)"
    if m': "m' = (if w = ''0'' then m else m(n \<mapsto> w))" for m'
  proof (rule ext)
    fix k
    consider "k < n" | "k = n" | "n + 1 \<le> k" by linarith
    then show "(if n + 1 \<le> k \<and> k < n + 1 + int (length es) \<and> fst (es ! nat (k - (n + 1))) \<noteq> ''0''
              then Some (fst (es ! nat (k - (n + 1)))) else m' k)
        = (if n \<le> k \<and> k < n + int (length (e # es)) \<and> fst ((e # es) ! nat (k - n)) \<noteq> ''0''
              then Some (fst ((e # es) ! nat (k - n))) else m k)"
    proof cases
      case 1
      then show ?thesis by (simp add: m')
    next
      case 2
      then show ?thesis by (simp add: e m')
    next
      case 3
      show ?thesis unfolding idx [OF 3] using 3 by (simp add: m')
    qed
  qed
  let ?F = "\<lambda>n es m. (\<lambda>k. if n \<le> k \<and> k < n + int (length es) \<and> fst (es ! nat (k - n)) \<noteq> ''0''
                    then Some (fst (es ! nat (k - n))) else m k)"
  let ?L = "module_dict valid (enumerate_from n (map (\<lambda>(model, revision). [model, revision]) (e # es))) m"
  show ?case
  proof (cases "w = ''0''")
    case True
    have "?L = module_dict valid (enumerate_from (n + 1) (map (\<lambda>(model, revision). [model, revision]) es)) m"
      by (simp add: e True)
    also have "\<dots> = (if ?ok (n + 1) es then Inr (?F (n + 1) es m) else Inl (ValueError ''SlotNr''))"
      by (rule Cons.IH)
    also have "?F (n + 1) es m = ?F n (e # es) m"
      by (rule shift) (simp only: True refl if_True)
    also have "?ok (n + 1) es \<longleftrightarrow> ?ok n (e # es)"
      unfolding ok using True by simp
    finally show ?thesis .
  next
    case False
    show ?thesis
    proof (cases "valid n")
      case v: True
      have "?L = module_dict valid (enumerate_from (n + 1) (map (\<lambda>(model, revision). [model, revision]) es))
              (m(n \<mapsto> w))"
        using v by (simp add: e False SlotNr_def)
      also have "\<dots> = (if ?ok (n + 1) es then Inr (?F (n + 1) es (m(n \<mapsto> w)))
                        else Inl (ValueError ''SlotNr''))"
        by (rule Cons.IH)
      also have "?F (n + 1) es (m(n \<mapsto> w)) = ?F n (e # es) m"
        by (rule shift) (simp only: False if_False)
      also have "?ok (n + 1) es \<longleftrightarrow> ?ok n (e # es)"
        unfolding ok using v by simp
      finally show ?thesis .
    next
      case nv: False
      have "?L = Inl (ValueError ''SlotNr'')"
        using nv by (simp add: e False SlotNr_def)
      moreover have "\<not> ?ok n (e # es)"
        unfolding ok using False nv by simp
      ultimately show ?thesis by simp
    qed
  qed
qed



lemma inventory_entries_example:
  "inventory_entries ''A,1;0,2;B,3'' = [(''A'', ''1''), (''0'', ''2''), (''B'', ''3'')]"
proof -
  have e1: "entry_at ''A,1;0,2;B,3'' = Some (''A'', ''1'', '';0,2;B,3'')"
    and e2: "entry_at '';0,2;B,3'' = Some (''0'', ''2'', '';B,3'')"
    and e3: "entry_at '';B,3'' = Some (''B'', ''3'', [])"
    and e4: "entry_at [] = None"
    by (simp_all add: entry_at_def entry_body_def is_word_def is_digit_def)
  show ?thesis
    by (simp add: inventory_entries.simps [of "''A,1;0,2;B,3''"]
        inventory_entries.simps [of "'';0,2;B,3''"] inventory_entries.simps [of "'';B,3''"]
        inventory_entries.simps [of "[]"] e1 e2 e3 e4)
qed






text \<open>
  X2. \<^verbatim>\<open>parse_module_query_response\<close> raises exactly when an entry whose model is
  not \<^verbatim>\<open>0\<close> stands at a position that \<^verbatim>\<open>SlotNr\<close> does not accept, and then
  with the \<^verbatim>\<open>ValueError\<close> of \<^verbatim>\<open>SlotNr\<close>.
\<close>

theorem parse_module_query_response_raises_iff:
  "((\<exists>e. parse_module_query_response valid response = Inl e) \<longleftrightarrow>
      (\<exists>j<length (inventory_entries response).
         fst (inventory_entries response ! j) \<noteq> ''0'' \<and> \<not> valid (1 + int j)))
   \<and> (parse_module_query_response valid response = Inl e \<longrightarrow> e = ValueError ''SlotNr'')"
proof -
  have "parse_module_query_response valid response =
      module_dict valid (enumerate_from 1
        (map (\<lambda>(model, revision). [model, revision]) (inventory_entries response))) Map.empty"
    by (simp add: parse_module_query_response_def re_findall_module_pattern)
  then show ?thesis
    unfolding module_dict_enumerate_gen by (auto split: if_splits)
qed

theorem parse_module_query_response_raises_iff_witness:
  "parse_module_query_response (\<lambda>n. n \<le> 2) ''A,1;0,2;B,3'' = Inl (ValueError ''SlotNr'')"
proof -
  have "\<exists>j<length (inventory_entries ''A,1;0,2;B,3'').
         fst (inventory_entries ''A,1;0,2;B,3'' ! j) \<noteq> ''0'' \<and> \<not> (1 + int j \<le> 2)"
    unfolding inventory_entries_example by (intro exI [of _ 2]) simp
  with parse_module_query_response_raises_iff [of "\<lambda>n. n \<le> 2" "''A,1;0,2;B,3''"]
  obtain e where e: "parse_module_query_response (\<lambda>n. n \<le> 2) ''A,1;0,2;B,3'' = Inl e"
    by blast
  with parse_module_query_response_raises_iff [of "\<lambda>n. n \<le> 2" "''A,1;0,2;B,3''" e]
  show ?thesis by simp
qed

end
